theory Spec2Isabelle
  imports Main
begin

section \<open>JavaScript values, exceptions and strings\<close>

text \<open>
  The scraper (\<^verbatim>\<open>modules/maps_scraper/scraper.js\<close>, the command-line script) and the
  HTTP server's \<^verbatim>\<open>runScraper\<close> drive a browser through Playwright. Every
  \<^verbatim>\<open>await\<close> of a Playwright call either returns a value or rejects; a rejection is an
  exception of the surrounding \<^verbatim>\<open>try\<close>. The result of a call is therefore a value of
  \<open>error + 'a\<close>, \<open>Inl\<close> being the exception.

  A JavaScript string is modelled as a \<open>string\<close> whose characters are the code units
  U+0000 to U+00FF; \<open>Null\<close> and \<open>Undefined\<close> are the two non-string values the
  program meets (a missing attribute, a key never set).
\<close>

datatype error = TimeoutError | TypeError | ReferenceError | OtherError

type_synonym 'a result = "error + 'a"

datatype jsval = Undefined | Null | Str string

fun truthy :: "jsval \<Rightarrow> bool" where
  "truthy (Str s) = (s \<noteq> [])"
| "truthy Null = False"
| "truthy Undefined = False"

text \<open>\<^verbatim>\<open>await a || await b\<close>: the second call is made only when the first value is falsy.\<close>

definition or_await :: "jsval result \<Rightarrow> jsval result \<Rightarrow> jsval result" where
  "or_await a b = (case a of Inl e \<Rightarrow> Inl e | Inr v \<Rightarrow> if truthy v then Inr v else b)"

text \<open>\<^verbatim>\<open>a || b\<close> on two values already computed.\<close>

definition js_or :: "jsval \<Rightarrow> jsval \<Rightarrow> jsval" where
  "js_or a b = (if truthy a then a else b)"

subsection \<open>Character classes of the regular expressions\<close>

definition is_digit :: "char \<Rightarrow> bool" where
  "is_digit c = (let n = (of_char c :: nat) in 48 \<le> n \<and> n \<le> 57)"

definition is_upper :: "char \<Rightarrow> bool" where
  "is_upper c = (let n = (of_char c :: nat) in 65 \<le> n \<and> n \<le> 90)"

definition is_lower :: "char \<Rightarrow> bool" where
  "is_lower c = (let n = (of_char c :: nat) in 97 \<le> n \<and> n \<le> 122)"

text \<open>\<^verbatim>\<open>\w\<close>: letters, digits and the underscore.\<close>

definition is_word_char :: "char \<Rightarrow> bool" where
  "is_word_char c = (is_upper c \<or> is_lower c \<or> is_digit c \<or> c = CHR ''_'')"

text \<open>
  \<^verbatim>\<open>\s\<close>, which is also what \<^verbatim>\<open>trim()\<close> strips: tab, line feed, vertical tab, form
  feed, carriage return, space and the no-break space U+00A0 (the white space and line
  terminators below U+0100).
\<close>

definition is_space :: "char \<Rightarrow> bool" where
  "is_space c = (let n = (of_char c :: nat) in (9 \<le> n \<and> n \<le> 13) \<or> n = 32 \<or> n = 160)"

text \<open>The characters \<^verbatim>\<open>.\<close> does not match: line feed and carriage return.\<close>

definition is_line_terminator :: "char \<Rightarrow> bool" where
  "is_line_terminator c = (let n = (of_char c :: nat) in n = 10 \<or> n = 13)"

text \<open>\<^verbatim>\<open>[a-zA-Z0-9._-]\<close>.\<close>

definition is_email_char :: "char \<Rightarrow> bool" where
  "is_email_char c =
     (is_upper c \<or> is_lower c \<or> is_digit c \<or> c = CHR ''.'' \<or> c = CHR ''_'' \<or> c = CHR ''-'')"

subsection \<open>String methods\<close>

fun js_startsWith :: "string \<Rightarrow> string \<Rightarrow> bool" where
  "js_startsWith s [] = True"
| "js_startsWith [] (p # ps) = False"
| "js_startsWith (c # cs) (p # ps) = (c = p \<and> js_startsWith cs ps)"

fun js_includes :: "string \<Rightarrow> string \<Rightarrow> bool" where
  "js_includes [] sub = (sub = [])"
| "js_includes (c # cs) sub = (js_startsWith (c # cs) sub \<or> js_includes cs sub)"

definition js_endsWith :: "string \<Rightarrow> string \<Rightarrow> bool" where
  "js_endsWith s suf = js_startsWith (rev s) (rev suf)"

definition js_trim :: "string \<Rightarrow> string" where
  "js_trim s = rev (dropWhile is_space (rev (dropWhile is_space s)))"

definition lower_char :: "char \<Rightarrow> char" where
  "lower_char c =
     (let n = (of_char c :: nat)
      in if (65 \<le> n \<and> n \<le> 90) \<or> (192 \<le> n \<and> n \<le> 222 \<and> n \<noteq> 215)
         then char_of (n + 32) else c)"

definition js_toLowerCase :: "string \<Rightarrow> string" where
  "js_toLowerCase s = map lower_char s"

fun js_join :: "string \<Rightarrow> string list \<Rightarrow> string" where
  "js_join sep [] = []"
| "js_join sep [x] = x"
| "js_join sep (x # y # ys) = x @ sep @ js_join sep (y # ys)"

text \<open>\<^verbatim>\<open>s.split(' ')[0]\<close>: the text before the first space.\<close>

definition split_first :: "string \<Rightarrow> string" where
  "split_first s = takeWhile (\<lambda>c. c \<noteq> CHR '' '') s"

text \<open>\<^verbatim>\<open>s.replace(/[^0-9]/g, '')\<close>: the digits of the text.\<close>

definition digits_only :: "string \<Rightarrow> string" where
  "digits_only s = filter is_digit s"

text \<open>
  \<^verbatim>\<open>arr.includes(x)\<close> guarding \<^verbatim>\<open>arr.push(x)\<close>, and the insertion of a value
  into a \<^verbatim>\<open>Set\<close>: the value is appended unless it is already there.
\<close>

definition push_unique :: "'a list \<Rightarrow> 'a \<Rightarrow> 'a list" where
  "push_unique acc x = (if x \<in> set acc then acc else acc @ [x])"

text \<open>\<^verbatim>\<open>[...new Set(xs)]\<close>: the distinct values of \<open>xs\<close> in insertion order.\<close>

definition set_values :: "'a list \<Rightarrow> 'a list" where
  "set_values xs = foldl push_unique [] xs"

section \<open>Review categories (chips)\<close>

text \<open>
  \<^verbatim>\<open>categoryText.match(/^(.+?),\s*mentioned in (\d+) reviews?$/)\<close>.
  \<open>mentioned_tail\<close> matches everything after the subject against the whole rest of the
  label and returns the count; white space and digits are matched greedily, and since the
  character that must follow each run is outside the run's class, no shorter run matches.
\<close>

fun strip_prefix :: "string \<Rightarrow> string \<Rightarrow> string option" where
  "strip_prefix [] s = Some s"
| "strip_prefix (p # ps) [] = None"
| "strip_prefix (p # ps) (c # cs) = (if p = c then strip_prefix ps cs else None)"

definition mentioned_tail :: "string \<Rightarrow> string option" where
  "mentioned_tail s =
     (case s of
        [] \<Rightarrow> None
      | c # r \<Rightarrow>
          if c \<noteq> CHR '','' then None
          else (case strip_prefix ''mentioned in '' (dropWhile is_space r) of
                  None \<Rightarrow> None
                | Some r2 \<Rightarrow>
                    let ds = takeWhile is_digit r2; r3 = dropWhile is_digit r2
                    in if ds \<noteq> [] \<and> (r3 = '' review'' \<or> r3 = '' reviews'')
                       then Some ds else None))"

text \<open>
  The lazy group \<^verbatim>\<open>(.+?)\<close>: the subject is the shortest non-empty prefix without a
  line terminator after which the tail matches.
\<close>

fun category_match_from :: "string \<Rightarrow> string \<Rightarrow> (string \<times> string) option" where
  "category_match_from subj [] = None"
| "category_match_from subj (c # cs) =
     (case (if subj = [] then None else mentioned_tail (c # cs)) of
        Some n \<Rightarrow> Some (subj, n)
      | None \<Rightarrow>
          if is_line_terminator c then None else category_match_from (subj @ [c]) cs)"

definition category_match :: "string \<Rightarrow> (string \<times> string) option" where
  "category_match s = category_match_from [] s"

text \<open>The entry pushed for a label that contains \<^verbatim>\<open>mentioned in\<close>.\<close>

definition category_entry :: "string \<Rightarrow> string" where
  "category_entry categoryText =
     (case category_match categoryText of
        Some (subject, count) \<Rightarrow> subject @ '' ('' @ count @ '')''
      | None \<Rightarrow> js_trim categoryText)"

text \<open>
  The shape \<^verbatim>\<open>^.+ \(\d+\)$\<close>: a closing parenthesis at the end, before it a non-empty
  run of digits, before that an opening parenthesis and a space, and before those at
  least one character, none a line terminator.
\<close>

definition is_subject_count :: "string \<Rightarrow> bool" where
  "is_subject_count s =
     (case rev s of
        [] \<Rightarrow> False
      | c # r \<Rightarrow>
          c = CHR '')'' \<and> takeWhile is_digit r \<noteq> [] \<and>
          (case dropWhile is_digit r of
             p # sp # subj \<Rightarrow>
               p = CHR ''('' \<and> sp = CHR '' '' \<and> subj \<noteq> [] \<and>
               list_all (\<lambda>x. \<not> is_line_terminator x) subj
           | _ \<Rightarrow> False))"

section \<open>Objects and review records\<close>

text \<open>
  A review starts as the empty object \<^verbatim>\<open>{}\<close> and receives its keys by assignment. An
  object is the list of its keys with their values, in insertion order (the order
  \<^verbatim>\<open>JSON.stringify\<close> writes them in); a key that was never assigned is not in the list,
  and reading it gives \<open>Undefined\<close>.
\<close>

type_synonym js_object = "(string \<times> jsval) list"

fun set_prop :: "js_object \<Rightarrow> string \<Rightarrow> jsval \<Rightarrow> js_object" where
  "set_prop [] k v = [(k, v)]"
| "set_prop ((k', v') # ps) k v =
     (if k' = k then (k, v) # ps else (k', v') # set_prop ps k v)"

definition get_prop :: "js_object \<Rightarrow> string \<Rightarrow> jsval" where
  "get_prop obj k = (case map_of obj k of None \<Rightarrow> Undefined | Some v \<Rightarrow> v)"

definition has_prop :: "js_object \<Rightarrow> string \<Rightarrow> bool" where
  "has_prop obj k = (map_of obj k \<noteq> None)"

text \<open>
  A \<^verbatim>\<open>try\<close> block is a sequence of steps on a state. A step returns the state it
  leaves behind and the exception it raised, if any; the block stops at the first
  exception, and the handler (which only logs) goes on with the state reached.
\<close>

type_synonym 's step = "'s \<Rightarrow> error option \<times> 's"

fun run_steps :: "'s step list \<Rightarrow> 's step" where
  "run_steps [] s = (None, s)"
| "run_steps (f # fs) s =
     (case f s of (Some e, s') \<Rightarrow> (Some e, s') | (None, s') \<Rightarrow> run_steps fs s')"

definition try_steps :: "'s step list \<Rightarrow> 's \<Rightarrow> 's" where
  "try_steps fs s = snd (run_steps fs s)"

text \<open>A \<^verbatim>\<open>for ... of\<close> loop whose body may raise: the exception ends the loop.\<close>

fun for_each :: "('a \<Rightarrow> 's step) \<Rightarrow> 'a list \<Rightarrow> 's step" where
  "for_each body [] s = (None, s)"
| "for_each body (x # xs) s =
     (case body x s of (Some e, s') \<Rightarrow> (Some e, s') | (None, s') \<Rightarrow> for_each body xs s')"

text \<open>
  \<^verbatim>\<open>await el.$(a) || await el.$(b)\<close>: an element handle is truthy, \<^verbatim>\<open>null\<close> is not.
\<close>

definition or_query :: "'h option result \<Rightarrow> 'h option result \<Rightarrow> 'h option result" where
  "or_query a b = (case a of Inl e \<Rightarrow> Inl e | Inr (Some h) \<Rightarrow> Inr (Some h) | Inr None \<Rightarrow> b)"

text \<open>
  What the page answers for one \<^verbatim>\<open>div[data-review-id]\<close> element. Each field is one
  call of the source: the element queries return \<^verbatim>\<open>null\<close> (\<open>None\<close>) or a handle,
  and a handle is given by the answers to the calls the source makes on it.
\<close>

record reviewer_handle =
  rh_ariaLabel :: "jsval result"
  rh_textContent :: "jsval result"

record review_el =
  d4r55 :: "reviewer_handle option result"
  contribButton :: "reviewer_handle option result"
  contribLink :: "reviewer_handle option result"
  starsEl :: "jsval result option result"
  textEl :: "jsval result option result"
  textDiv :: "jsval result option result"
  timeEl :: "jsval result option result"

definition reviewerEl :: "review_el \<Rightarrow> reviewer_handle option result" where
  "reviewerEl el = or_query (or_query (d4r55 el) (contribButton el)) (contribLink el)"

text \<open>\<^verbatim>\<open>if (h) review[k] = await h.call()\<close> for a handle query already made.\<close>

definition assign_from :: "string \<Rightarrow> jsval result option \<Rightarrow> js_object step" where
  "assign_from k h review =
     (case h of
        None \<Rightarrow> (None, review)
      | Some (Inl e) \<Rightarrow> (Some e, review)
      | Some (Inr v) \<Rightarrow> (None, set_prop review k v))"

definition step_reviewer :: "review_el \<Rightarrow> js_object step" where
  "step_reviewer el review =
     (case reviewerEl el of
        Inl e \<Rightarrow> (Some e, review)
      | Inr None \<Rightarrow> (None, review)
      | Inr (Some h) \<Rightarrow>
          assign_from ''reviewer'' (Some (or_await (rh_ariaLabel h) (rh_textContent h))) review)"

definition step_rating :: "review_el \<Rightarrow> js_object step" where
  "step_rating el review =
     (case starsEl el of
        Inl e \<Rightarrow> (Some e, review)
      | Inr h \<Rightarrow> assign_from ''rating'' h review)"

definition step_text :: "review_el \<Rightarrow> js_object step" where
  "step_text el review =
     (case textEl el of
        Inl e \<Rightarrow> (Some e, review)
      | Inr (Some t) \<Rightarrow> assign_from ''text'' (Some t) review
      | Inr None \<Rightarrow>
          (case textDiv el of
             Inl e \<Rightarrow> (Some e, review)
           | Inr h \<Rightarrow> assign_from ''text'' h review))"

definition step_time :: "review_el \<Rightarrow> js_object step" where
  "step_time el review =
     (case timeEl el of
        Inl e \<Rightarrow> (Some e, review)
      | Inr h \<Rightarrow> assign_from ''time'' h review)"

text \<open>The body of the loop over the review elements up to the end of its \<^verbatim>\<open>try\<close>.\<close>

definition extract_review :: "review_el \<Rightarrow> js_object" where
  "extract_review el =
     try_steps [step_reviewer el, step_rating el, step_text el, step_time el] []"

text \<open>\<^verbatim>\<open>review.reviewer || review.text || review.rating\<close>.\<close>

definition has_some_data :: "js_object \<Rightarrow> bool" where
  "has_some_data review =
     (truthy (get_prop review ''reviewer'') \<or> truthy (get_prop review ''text'') \<or>
      truthy (get_prop review ''rating''))"

fun review_loop :: "review_el list \<Rightarrow> js_object list \<Rightarrow> js_object list" where
  "review_loop [] reviews = reviews"
| "review_loop (el # els) reviews =
     (let review = extract_review el;
          reviews' = (if has_some_data review then reviews @ [review] else reviews)
      in if length reviews' \<ge> 10 then reviews' else review_loop els reviews')"

section \<open>Mentioned names\<close>

text \<open>
  \<^verbatim>\<open>/\b[A-Z][a-z]{2,}\s+[A-Z][a-z]{2,}\b/g\<close> tried at one position: \<open>prev\<close> is the
  character before it (\<open>None\<close> at the start of the text). Each run is taken greedily;
  a shorter run never matches, because what must follow a run is outside its class, and a
  word boundary cannot lie between two lower-case letters. The result is the matched text.
\<close>

definition after_word_char :: "char option \<Rightarrow> bool" where
  "after_word_char prev = (case prev of None \<Rightarrow> False | Some p \<Rightarrow> is_word_char p)"

definition name_at :: "char option \<Rightarrow> string \<Rightarrow> string option" where
  "name_at prev s =
     (if after_word_char prev then None
      else
        (case s of
           [] \<Rightarrow> None
         | c1 # r1 \<Rightarrow>
             (let w1 = takeWhile is_lower r1; r2 = dropWhile is_lower r1;
                  sp = takeWhile is_space r2; r3 = dropWhile is_space r2
              in if \<not> is_upper c1 \<or> length w1 < 2 \<or> sp = [] then None
                 else
                   (case r3 of
                      [] \<Rightarrow> None
                    | c2 # r4 \<Rightarrow>
                        (let w2 = takeWhile is_lower r4; r5 = dropWhile is_lower r4
                         in if \<not> is_upper c2 \<or> length w2 < 2 then None
                            else if r5 \<noteq> [] \<and> is_word_char (hd r5) then None
                            else Some (c1 # w1 @ sp @ c2 # w2))))))"

text \<open>
  The global search: the leftmost match, then on from its end; without a match at a
  position, on from the next one.
\<close>

fun scan_names :: "char option \<Rightarrow> string \<Rightarrow> string list" where
  "scan_names prev [] = []"
| "scan_names prev (c # cs) =
     (case name_at prev (c # cs) of
        Some m \<Rightarrow> m # scan_names (Some (last m)) (drop (length m - 1) cs)
      | None \<Rightarrow> scan_names (Some c) cs)"

definition match_names :: "string \<Rightarrow> string list" where
  "match_names t = scan_names None t"

definition excludeWords :: "string list" where
  "excludeWords =
     [''North Beach'', ''San Francisco'', ''New York'', ''Los Angeles'', ''Fort Worth'', ''Dallas'',
      ''South Bay'', ''East Bay'', ''West Coast'', ''East Coast'',
      ''Google Maps'', ''Yelp Reviews'', ''Facebook Page'', ''Instagram Account'',
      ''The Godfather'', ''The Beatles'', ''The Rolling'',
      ''Monday Morning'', ''Tuesday Night'', ''Wednesday Evening'',
      ''Thank You'', ''Best Regards'', ''Kind Regards'', ''Very Good'', ''Highly Recommend'',
      ''Perfect Balance'', ''Tax Services'', ''The Black'', ''Bookkeeping Services'',
      ''Tax Service'', ''Bookkeeping Service'', ''Accounting Services'', ''Accounting Service'',
      ''Financial Services'', ''Financial Service'', ''Business Services'', ''Business Service'',
      ''Tax Preparation'', ''Tax Consultant'', ''Tax Consultants'', ''Tax Return'',
      ''Income Tax'', ''Tax Season'', ''Tax Returns'', ''Tax Deductions'',
      ''Balance Sheet'', ''Profit Loss'', ''Cash Flow'', ''General Ledger'']"

text \<open>The body of the loop over the matches of one review text.\<close>

definition accept_name :: "string list \<Rightarrow> string \<Rightarrow> string list" where
  "accept_name mentionedNames name =
     (let trimmedName = js_trim name
      in if trimmedName \<notin> set excludeWords \<and> \<not> js_includes trimmedName [CHR 0x0A] \<and>
            trimmedName \<notin> set mentionedNames
         then mentionedNames @ [trimmedName] else mentionedNames)"

text \<open>\<^verbatim>\<open>if (review.text)\<close>: the texts that are scanned are the non-empty strings.\<close>

definition review_text :: "js_object \<Rightarrow> string" where
  "review_text review = (case get_prop review ''text'' of Str t \<Rightarrow> t | _ \<Rightarrow> [])"

definition names_of_review :: "string list \<Rightarrow> js_object \<Rightarrow> string list" where
  "names_of_review mentionedNames review =
     foldl accept_name mentionedNames (match_names (review_text review))"

definition extract_names :: "js_object list \<Rightarrow> string list" where
  "extract_names reviews = foldl names_of_review [] reviews"

section \<open>Email addresses\<close>

text \<open>
  \<^verbatim>\<open>/[a-zA-Z0-9._-]+@[a-zA-Z0-9._-]+\.[a-zA-Z0-9._-]+/gi\<close> tried at one position. The
  local part is the whole run of class characters and must be followed by \<^verbatim>\<open>@\<close>. The
  class contains the dot, so after \<^verbatim>\<open>@\<close> the engine takes the whole run, and backs up
  to a dot of the run that has a character of the run on either side; the last group
  then takes the run to its end. The match is the local part, \<^verbatim>\<open>@\<close> and the whole run.
\<close>

definition has_inner_dot :: "string \<Rightarrow> bool" where
  "has_inner_dot r = (CHR ''.'' \<in> set (butlast (tl r)))"

definition email_at :: "string \<Rightarrow> string option" where
  "email_at s =
     (let l = takeWhile is_email_char s
      in if l = [] then None
         else case dropWhile is_email_char s of
           [] \<Rightarrow> None
         | a # rest \<Rightarrow>
             let r = takeWhile is_email_char rest
             in if a = CHR ''@'' \<and> has_inner_dot r then Some (l @ a # r) else None)"

fun scan_emails :: "string \<Rightarrow> string list" where
  "scan_emails [] = []"
| "scan_emails (c # cs) =
     (case email_at (c # cs) of
        Some m \<Rightarrow> m # scan_emails (drop (length m - 1) cs)
      | None \<Rightarrow> scan_emails cs)"

text \<open>\<^verbatim>\<open>lower.match(/\.(png|jpg|jpeg|gif|css|js)$/)\<close>.\<close>

definition junk_extension :: "string \<Rightarrow> bool" where
  "junk_extension lower =
     (js_endsWith lower ''.png'' \<or> js_endsWith lower ''.jpg'' \<or> js_endsWith lower ''.jpeg'' \<or>
      js_endsWith lower ''.gif'' \<or> js_endsWith lower ''.css'' \<or> js_endsWith lower ''.js'')"

text \<open>The predicate of the \<^verbatim>\<open>filter\<close> over the distinct matches.\<close>

definition keep_email :: "string \<Rightarrow> bool" where
  "keep_email email =
     (let lower = js_toLowerCase email
      in \<not> junk_extension lower \<and>
         \<not> js_includes lower ''sentry'' \<and>
         \<not> js_includes lower ''wix'' \<and>
         \<not> js_includes lower ''node_modules'' \<and>
         \<not> js_includes lower ''example.com'' \<and>
         \<not> js_includes lower ''domain.com'')"

text \<open>
  \<^verbatim>\<open>content.match(emailRegex)\<close> is \<^verbatim>\<open>null\<close> when nothing matches, and then the
  field keeps its value.
\<close>

definition harvested_email :: "string \<Rightarrow> string option" where
  "harvested_email content =
     (case scan_emails content of
        [] \<Rightarrow> None
      | emails \<Rightarrow> Some (js_join '', '' (filter keep_email (set_values emails))))"

section \<open>The listing record and the page\<close>

text \<open>
  The object \<^verbatim>\<open>data\<close> of one listing. The key \<^verbatim>\<open>attributes\<close> is not among the keys
  the object is created with: \<open>None\<close> is the key not set.
\<close>

record listing =
  url :: string
  name :: jsval
  address :: jsval
  phone :: jsval
  website :: jsval
  rating :: jsval
  reviewCount :: string
  reviews :: "js_object list"
  reviewCategories :: "string list"
  mentionedNames :: "string list"
  email :: string
  attributes :: "string list option"

definition new_listing :: "string \<Rightarrow> listing" where
  "new_listing u =
     \<lparr>url = u, name = Str [], address = Str [], phone = Str [], website = Str [],
      rating = Str [], reviewCount = [], reviews = [], reviewCategories = [],
      mentionedNames = [], email = [], attributes = None\<rparr>"

text \<open>
  What the browser answers while one listing is processed: one field for each call the
  source makes, in the order of the source. Both programs are run against the same
  answers.
\<close>

record item_button =
  btn_textContent :: "jsval result"
  btn_ariaLabel :: "jsval result"
  btn_itemId :: "jsval result"

record chip =
  chip_ariaLabel :: "jsval result"
  chip_textContent :: "jsval result"

record basics_env =
  goto :: "unit result"
  h1_textContent :: "jsval result"
  buttons :: "item_button list result"
  websiteLink :: "jsval result option result"

record rating_env =
  ratingEl_count :: "nat result"
  ratingEl_ariaLabel :: "jsval result"
  textRating_count :: "nat result"
  textRating_textContent :: "jsval result"
  reviewCountEl_count :: "nat result"
  reviewCountEl_textContent :: "jsval result"
  reviewCountText_count :: "nat result"
  reviewCountText_textContent :: "jsval result"

record about_env =
  aboutTabBtn_count :: "nat result"
  aboutTabBtn_click :: "unit result"
  about_waitForTimeout :: "unit result"
  pageContent :: "string result"

record reviews_env =
  reviewsTabBtn_count :: "nat result"
  reviewsTabBtn_click :: "unit result"
  waitForSelector_review :: "unit result"
  reviewsContainer_count :: "nat result"
  reviewsContainer_evaluate :: "nat \<Rightarrow> unit result"
  scroll_waitForTimeout :: "nat \<Rightarrow> unit result"
  moreButtons :: "nat result"
  reviewElements :: "review_el list result"
  categories_waitForTimeout :: "unit result"
  categoryButtons :: "chip list result"

record email_env =
  newPage :: "unit result"
  page2_goto :: "unit result"
  page2_content :: "string result"
  page2_close :: "unit result"

record page_env =
  basics :: basics_env
  ratings :: rating_env
  about :: about_env
  review_tab :: reviews_env
  site :: email_env

text \<open>A call whose value is not used: it only may raise.\<close>

definition await_unit :: "'a result \<Rightarrow> 's step" where
  "await_unit r s = (case r of Inl e \<Rightarrow> (Some e, s) | Inr _ \<Rightarrow> (None, s))"

section \<open>Field resolution\<close>

text \<open>\<^verbatim>\<open>try { data.name = await page.textContent('h1'); } catch (e) { }\<close>\<close>

definition resolve_name :: "basics_env \<Rightarrow> listing \<Rightarrow> listing" where
  "resolve_name env data =
     (case h1_textContent env of Inl e \<Rightarrow> data | Inr v \<Rightarrow> data\<lparr>name := v\<rparr>)"

text \<open>
  The body of the loop over \<^verbatim>\<open>button[data-item-id]\<close>. It is outside every inner
  \<^verbatim>\<open>try\<close>: an exception here goes to the handler of the listing.
  \<^verbatim>\<open>itemId.includes\<close> on a value that is not a string is a \<open>TypeError\<close>.
\<close>

definition item_button_step :: "item_button \<Rightarrow> listing \<Rightarrow> listing result" where
  "item_button_step btn data =
     (case btn_textContent btn of Inl e \<Rightarrow> Inl e | Inr text \<Rightarrow>
     (case btn_ariaLabel btn of Inl e \<Rightarrow> Inl e | Inr ariaLabel \<Rightarrow>
     (case btn_itemId btn of Inl e \<Rightarrow> Inl e | Inr itemId \<Rightarrow>
     (case itemId of
        Str i \<Rightarrow>
          (let d1 = (if js_includes i ''address'' then data\<lparr>address := js_or ariaLabel text\<rparr> else data);
               d2 = (if js_includes i ''phone'' then d1\<lparr>phone := js_or ariaLabel text\<rparr> else d1);
               d3 = (if js_includes i ''authority'' then d2\<lparr>website := text\<rparr> else d2)
           in Inr d3)
      | Null \<Rightarrow> Inl TypeError
      | Undefined \<Rightarrow> Inl TypeError))))"

fun item_buttons_loop :: "item_button list \<Rightarrow> listing \<Rightarrow> listing result" where
  "item_buttons_loop [] data = Inr data"
| "item_buttons_loop (btn # btns) data =
     (case item_button_step btn data of
        Inl e \<Rightarrow> Inl e
      | Inr data' \<Rightarrow> item_buttons_loop btns data')"

definition resolve_buttons :: "basics_env \<Rightarrow> listing \<Rightarrow> listing result" where
  "resolve_buttons env data =
     (case buttons env of Inl e \<Rightarrow> Inl e | Inr btns \<Rightarrow> item_buttons_loop btns data)"

text \<open>\<^verbatim>\<open>a[data-item-id="authority"]\<close>: when the link exists its \<^verbatim>\<open>href\<close> wins.\<close>

definition resolve_website_link :: "basics_env \<Rightarrow> listing \<Rightarrow> listing result" where
  "resolve_website_link env data =
     (case websiteLink env of
        Inl e \<Rightarrow> Inl e
      | Inr None \<Rightarrow> Inr data
      | Inr (Some href) \<Rightarrow>
          (case href of Inl e \<Rightarrow> Inl e | Inr v \<Rightarrow> Inr (data\<lparr>website := v\<rparr>)))"

text \<open>
  Rating and review count, the two statements of one \<^verbatim>\<open>try\<close>.
  \<^verbatim>\<open>aria.split\<close> and \<^verbatim>\<open>text.replace\<close> on \<^verbatim>\<open>null\<close> are a \<open>TypeError\<close>.
\<close>

definition rating_step :: "rating_env \<Rightarrow> listing step" where
  "rating_step env data =
     (case ratingEl_count env of
        Inl e \<Rightarrow> (Some e, data)
      | Inr n \<Rightarrow>
          if n > 0 then
            (case ratingEl_ariaLabel env of
               Inl e \<Rightarrow> (Some e, data)
             | Inr (Str aria) \<Rightarrow> (None, data\<lparr>rating := Str (split_first aria)\<rparr>)
             | Inr Null \<Rightarrow> (Some TypeError, data)
             | Inr Undefined \<Rightarrow> (Some TypeError, data))
          else
            (case textRating_count env of
               Inl e \<Rightarrow> (Some e, data)
             | Inr m \<Rightarrow>
                 if m > 0 then
                   (case textRating_textContent env of
                      Inl e \<Rightarrow> (Some e, data)
                    | Inr v \<Rightarrow> (None, data\<lparr>rating := v\<rparr>))
                 else (None, data)))"

definition review_count_from :: "jsval result \<Rightarrow> listing step" where
  "review_count_from t data =
     (case t of
        Inl e \<Rightarrow> (Some e, data)
      | Inr (Str text) \<Rightarrow> (None, data\<lparr>reviewCount := digits_only text\<rparr>)
      | Inr Null \<Rightarrow> (Some TypeError, data)
      | Inr Undefined \<Rightarrow> (Some TypeError, data))"

definition review_count_step :: "rating_env \<Rightarrow> listing step" where
  "review_count_step env data =
     (case reviewCountEl_count env of
        Inl e \<Rightarrow> (Some e, data)
      | Inr n \<Rightarrow>
          if n > 0 then review_count_from (reviewCountEl_textContent env) data
          else
            (case reviewCountText_count env of
               Inl e \<Rightarrow> (Some e, data)
             | Inr m \<Rightarrow>
                 if m > 0 then review_count_from (reviewCountText_textContent env) data
                 else (None, data)))"

definition resolve_rating :: "rating_env \<Rightarrow> listing \<Rightarrow> listing" where
  "resolve_rating env data = try_steps [rating_step env, review_count_step env] data"

section \<open>Attributes (About tab), in the command-line script only\<close>

definition attribute_tags :: "string \<Rightarrow> string list" where
  "attribute_tags content =
     (if js_includes content ''Identified as women-owned'' then [''Women-owned''] else []) @
     (if js_includes content ''Identified as veteran-owned'' then [''Veteran-owned''] else []) @
     (if js_includes content ''Identified as Black-owned'' then [''Black-owned''] else []) @
     (if js_includes content ''Identified as Latino-owned'' then [''Latino-owned''] else [])"

definition about_step :: "about_env \<Rightarrow> listing step" where
  "about_step env data =
     (case aboutTabBtn_count env of
        Inl e \<Rightarrow> (Some e, data)
      | Inr n \<Rightarrow>
          if n > 0 then
            (case aboutTabBtn_click env of Inl e \<Rightarrow> (Some e, data) | Inr _ \<Rightarrow>
            (case about_waitForTimeout env of Inl e \<Rightarrow> (Some e, data) | Inr _ \<Rightarrow>
            (case pageContent env of
               Inl e \<Rightarrow> (Some e, data)
             | Inr content \<Rightarrow> (None, data\<lparr>attributes := Some (attribute_tags content)\<rparr>))))
          else (None, data))"

definition extract_attributes :: "about_env \<Rightarrow> listing \<Rightarrow> listing" where
  "extract_attributes env data = try_steps [about_step env] data"

section \<open>Reviews, categories and names: one \<^verbatim>\<open>try\<close> block\<close>

text \<open>
  The clicks on the first ten \<^verbatim>\<open>See more\<close> buttons are each inside a \<^verbatim>\<open>try\<close> of
  their own with an empty handler: of that part only the query for the buttons can raise.
\<close>

definition scroll_reviews_step :: "reviews_env \<Rightarrow> listing step" where
  "scroll_reviews_step env data =
     (case reviewsContainer_count env of
        Inl e \<Rightarrow> (Some e, data)
      | Inr k \<Rightarrow>
          if k > 0 then
            run_steps
              (concat (map (\<lambda>i. [await_unit (reviewsContainer_evaluate env i),
                                  await_unit (scroll_waitForTimeout env i)])
                           [0 ..< 3])) data
          else (None, data))"

definition read_reviews_step :: "reviews_env \<Rightarrow> listing step" where
  "read_reviews_step env data =
     (case reviewElements env of
        Inl e \<Rightarrow> (Some e, data)
      | Inr els \<Rightarrow> (None, data\<lparr>reviews := review_loop els (reviews data)\<rparr>))"

definition harvest_step :: "reviews_env \<Rightarrow> listing step" where
  "harvest_step env data =
     (case reviewsTabBtn_count env of
        Inl e \<Rightarrow> (Some e, data)
      | Inr n \<Rightarrow>
          if n > 0 then
            run_steps
              [await_unit (reviewsTabBtn_click env),
               await_unit (waitForSelector_review env),
               scroll_reviews_step env,
               await_unit (moreButtons env),
               read_reviews_step env]
              data
          else (None, data))"

text \<open>The body of the loop over the chips \<^verbatim>\<open>button.e2moi\<close>.\<close>

definition chip_step :: "chip \<Rightarrow> listing step" where
  "chip_step btn data =
     (case chip_ariaLabel btn of Inl e \<Rightarrow> (Some e, data) | Inr ariaLabel \<Rightarrow>
     (case chip_textContent btn of Inl e \<Rightarrow> (Some e, data) | Inr text \<Rightarrow>
     (case js_or ariaLabel text of
        Str categoryText \<Rightarrow>
          if categoryText \<noteq> [] \<and> js_includes categoryText ''mentioned in''
          then (None, data\<lparr>reviewCategories := reviewCategories data @ [category_entry categoryText]\<rparr>)
          else (None, data)
      | Null \<Rightarrow> (None, data)
      | Undefined \<Rightarrow> (None, data))))"

definition reset_categories_step :: "listing step" where
  "reset_categories_step data = (None, data\<lparr>reviewCategories := []\<rparr>)"

definition chips_step :: "reviews_env \<Rightarrow> listing step" where
  "chips_step env data =
     (case categoryButtons env of
        Inl e \<Rightarrow> (Some e, data)
      | Inr btns \<Rightarrow> for_each chip_step btns data)"

definition categories_step :: "reviews_env \<Rightarrow> listing step" where
  "categories_step env data =
     run_steps
       [reset_categories_step,
        await_unit (categories_waitForTimeout env),
        chips_step env]
       data"

definition names_step :: "listing step" where
  "names_step data = (None, data\<lparr>mentionedNames := extract_names (reviews data)\<rparr>)"

definition extract_reviews :: "reviews_env \<Rightarrow> listing \<Rightarrow> listing" where
  "extract_reviews env data =
     try_steps [harvest_step env, categories_step env, names_step] data"

section \<open>Email harvesting\<close>

text \<open>
  The secondary page \<^verbatim>\<open>page2\<close>: not opened, open, or closed. \<open>email_try\<close> is the
  \<^verbatim>\<open>try\<close> block, the same text in both programs; it returns the exception raised, the
  state of the secondary page when the block is left, and the record.
\<close>

datatype page2_state = NotOpened | Opened | Closed

definition email_try :: "email_env \<Rightarrow> listing \<Rightarrow> error option \<times> page2_state \<times> listing" where
  "email_try env data =
     (case newPage env of Inl e \<Rightarrow> (Some e, NotOpened, data) | Inr _ \<Rightarrow>
     (case page2_goto env of Inl e \<Rightarrow> (Some e, Opened, data) | Inr _ \<Rightarrow>
     (case page2_content env of Inl e \<Rightarrow> (Some e, Opened, data) | Inr content \<Rightarrow>
     (let data' = (case harvested_email content of
                     None \<Rightarrow> data
                   | Some joined \<Rightarrow> data\<lparr>email := joined\<rparr>)
      in (case page2_close env of
            Inl e \<Rightarrow> (Some e, Opened, data')
          | Inr _ \<Rightarrow> (None, Closed, data'))))))"

text \<open>
  The command-line script. \<^verbatim>\<open>page2\<close> is declared with \<^verbatim>\<open>const\<close> inside the
  \<^verbatim>\<open>try\<close> block, so the handler's \<^verbatim>\<open>page2.isClosed()\<close> names a variable that is
  not in scope there: evaluating it raises a \<open>ReferenceError\<close>, which leaves the handler
  before \<^verbatim>\<open>page2.close()\<close> and goes to the handler of the listing.
\<close>

definition cli_extract_email :: "email_env \<Rightarrow> listing \<Rightarrow> page2_state \<times> listing result" where
  "cli_extract_email env data =
     (if truthy (website data) then
        (case email_try env data of
           (None, p2, data') \<Rightarrow> (p2, Inr data')
         | (Some e, p2, data') \<Rightarrow> (p2, Inl ReferenceError))
      else (NotOpened, Inr data))"

text \<open>The server's \<^verbatim>\<open>runScraper\<close>: the handler only logs.\<close>

definition server_extract_email :: "email_env \<Rightarrow> listing \<Rightarrow> page2_state \<times> listing result" where
  "server_extract_email env data =
     (if truthy (website data) then
        (case email_try env data of (_, p2, data') \<Rightarrow> (p2, Inr data'))
      else (NotOpened, Inr data))"

section \<open>One listing, and the loop over the listings\<close>

text \<open>
  The body of \<^verbatim>\<open>for (const url of urls)\<close>. \<open>Inl\<close> is an exception that reached the
  handler of the listing, which logs it: \<^verbatim>\<open>resultsData.push(data)\<close> is skipped.
\<close>

definition resolve_fields :: "page_env \<Rightarrow> string \<Rightarrow> listing result" where
  "resolve_fields env u =
     (case goto (basics env) of Inl e \<Rightarrow> Inl e | Inr _ \<Rightarrow>
     (case resolve_buttons (basics env) (resolve_name (basics env) (new_listing u)) of
        Inl e \<Rightarrow> Inl e
      | Inr data \<Rightarrow>
     (case resolve_website_link (basics env) data of
        Inl e \<Rightarrow> Inl e
      | Inr data' \<Rightarrow> Inr (resolve_rating (ratings env) data'))))"

definition cli_scrape_listing :: "string \<Rightarrow> page_env \<Rightarrow> listing result" where
  "cli_scrape_listing u env =
     (case resolve_fields env u of
        Inl e \<Rightarrow> Inl e
      | Inr data \<Rightarrow>
          snd (cli_extract_email (site env)
                 (extract_reviews (review_tab env) (extract_attributes (about env) data))))"

definition server_scrape_listing :: "string \<Rightarrow> page_env \<Rightarrow> listing result" where
  "server_scrape_listing u env =
     (case resolve_fields env u of
        Inl e \<Rightarrow> Inl e
      | Inr data \<Rightarrow>
          snd (server_extract_email (site env) (extract_reviews (review_tab env) data)))"

fun scrape_all :: "(string \<Rightarrow> page_env \<Rightarrow> listing result) \<Rightarrow> (string \<times> page_env) list \<Rightarrow>
    listing list \<Rightarrow> listing list" where
  "scrape_all body [] resultsData = resultsData"
| "scrape_all body ((u, env) # rest) resultsData =
     (case body u env of
        Inl e \<Rightarrow> scrape_all body rest resultsData
      | Inr data \<Rightarrow> scrape_all body rest (resultsData @ [data]))"

definition cli_resultsData :: "(string \<times> page_env) list \<Rightarrow> listing list" where
  "cli_resultsData visits = scrape_all cli_scrape_listing visits []"

definition runScraper_resultsData :: "(string \<times> page_env) list \<Rightarrow> listing list" where
  "runScraper_resultsData visits = scrape_all server_scrape_listing visits []"

text \<open>A record is produced when either program pushes it for the listing.\<close>

definition produced :: "string \<Rightarrow> page_env \<Rightarrow> listing \<Rightarrow> bool" where
  "produced u env d =
     (cli_scrape_listing u env = Inr d \<or> server_scrape_listing u env = Inr d)"

section \<open>The listing resolver: scroll loop and URL collection\<close>

definition MAX_RESULTS :: nat where
  "MAX_RESULTS = 10"

text \<open>
  What the result feed answers at the \<open>i\<close>-th pass of \<^verbatim>\<open>while (true)\<close>: the number
  of \<^verbatim>\<open>div[role="article"]\<close> elements, and the outcomes of the scroll and of the wait.
\<close>

record feed_env =
  results_length :: "nat \<Rightarrow> nat result"
  feed_scrollTo :: "nat \<Rightarrow> unit result"
  feed_waitForTimeout :: "nat \<Rightarrow> unit result"

text \<open>
  The loop has no bound of its own, so the model counts fuel: \<open>None\<close> is the loop still
  running when the fuel is used up. \<open>Some (Inr i)\<close> is the loop left at pass \<open>i\<close>,
  \<open>Some (Inl e)\<close> an exception, which is fatal to the run.
\<close>

fun scroll_loop :: "nat \<Rightarrow> feed_env \<Rightarrow> nat \<Rightarrow> nat result option" where
  "scroll_loop 0 env i = None"
| "scroll_loop (Suc fuel) env i =
     (case results_length env i of
        Inl e \<Rightarrow> Some (Inl e)
      | Inr n \<Rightarrow>
          if n \<ge> MAX_RESULTS then Some (Inr i)
          else
            (case feed_scrollTo env i of Inl e \<Rightarrow> Some (Inl e) | Inr _ \<Rightarrow>
            (case feed_waitForTimeout env i of Inl e \<Rightarrow> Some (Inl e) | Inr _ \<Rightarrow>
               if n > 0 \<and> n < MAX_RESULTS then scroll_loop fuel env (Suc i)
               else Some (Inr i))))"

text \<open>A feed that shows \<open>k\<close> listings at every pass and never raises.\<close>

definition stalled_feed :: "nat \<Rightarrow> feed_env" where
  "stalled_feed k =
     \<lparr>results_length = (\<lambda>i. Inr k), feed_scrollTo = (\<lambda>i. Inr ()),
      feed_waitForTimeout = (\<lambda>i. Inr ())\<rparr>"

text \<open>
  The loop over the anchors \<^verbatim>\<open>div[role="article"] a[href*="/maps/place/"]\<close>; an anchor
  is given by the answer to \<^verbatim>\<open>getAttribute('href')\<close>.
\<close>

fun collect_urls :: "jsval result list \<Rightarrow> string list \<Rightarrow> string list result" where
  "collect_urls [] urls = Inr urls"
| "collect_urls (article # articles) urls =
     (case article of
        Inl e \<Rightarrow> Inl e
      | Inr href \<Rightarrow>
          (let urls' = (if truthy href then
                          (case href of Str h \<Rightarrow> push_unique urls h | Null \<Rightarrow> urls | Undefined \<Rightarrow> urls)
                        else urls)
           in if length urls' \<ge> MAX_RESULTS then Inr urls' else collect_urls articles urls'))"

section \<open>Notions the properties are stated with\<close>

text \<open>
  The label of a chip as the source reads it (\<^verbatim>\<open>ariaLabel || text\<close>), when both calls
  return and the value is a string.
\<close>

definition chip_label :: "chip \<Rightarrow> string option" where
  "chip_label btn =
     (case chip_ariaLabel btn of
        Inl e \<Rightarrow> None
      | Inr a \<Rightarrow>
          (case chip_textContent btn of
             Inl e \<Rightarrow> None
           | Inr t \<Rightarrow> (case js_or a t of Str l \<Rightarrow> Some l | Null \<Rightarrow> None | Undefined \<Rightarrow> None)))"

definition env_chips :: "page_env \<Rightarrow> chip list" where
  "env_chips env = (case categoryButtons (review_tab env) of Inl e \<Rightarrow> [] | Inr btns \<Rightarrow> btns)"

definition env_review_els :: "page_env \<Rightarrow> review_el list" where
  "env_review_els env = (case reviewElements (review_tab env) of Inl e \<Rightarrow> [] | Inr els \<Rightarrow> els)"

text \<open>An element query that returned a handle.\<close>

definition found :: "'h option result \<Rightarrow> bool" where
  "found q = (case q of Inl e \<Rightarrow> False | Inr None \<Rightarrow> False | Inr (Some h) \<Rightarrow> True)"

text \<open>
  The resolution chains of the four review fields: the reviewer chain tries three
  selectors, the text chain two, the rating and the time one each.
\<close>

definition reviewer_found :: "review_el \<Rightarrow> bool" where
  "reviewer_found el = found (reviewerEl el)"

definition rating_found :: "review_el \<Rightarrow> bool" where
  "rating_found el = found (starsEl el)"

definition text_found :: "review_el \<Rightarrow> bool" where
  "text_found el = found (or_query (textEl el) (textDiv el))"

definition time_found :: "review_el \<Rightarrow> bool" where
  "time_found el = found (timeEl el)"

text \<open>The chain of a key of the review object found an element.\<close>

definition key_found :: "review_el \<Rightarrow> string \<Rightarrow> bool" where
  "key_found el k =
     ((k = ''reviewer'' \<and> reviewer_found el) \<or> (k = ''rating'' \<and> rating_found el) \<or>
      (k = ''text'' \<and> text_found el) \<or> (k = ''time'' \<and> time_found el))"

text \<open>The fields that only the review, category, name and email steps write.\<close>

definition derived_fields_unset :: "listing \<Rightarrow> bool" where
  "derived_fields_unset s =
     (reviews s = [] \<and> reviewCategories s = [] \<and> mentionedNames s = [] \<and> email s = [])"

text \<open>The distinct elements of a list, each at its first occurrence.\<close>

definition first_occurrences :: "'a list \<Rightarrow> 'a list" where
  "first_occurrences xs = rev (remdups (rev xs))"

text \<open>
  The name candidates of a record's reviews in reading order: the trimmed pattern matches
  of every review text, and among them those that pass the exclusion list and the
  line-break test.
\<close>

definition name_candidates :: "js_object list \<Rightarrow> string list" where
  "name_candidates rs = map js_trim (concat (map (\<lambda>r. match_names (review_text r)) rs))"

definition acceptable_name :: "string \<Rightarrow> bool" where
  "acceptable_name n = (n \<notin> set excludeWords \<and> \<not> js_includes n [CHR 0x0A])"

text \<open>
  A token the email pattern matches as a whole: a non-empty local part, \<^verbatim>\<open>@\<close>, and a run
  of class characters with a dot that has a class character on either side.
\<close>

definition email_shaped :: "string \<Rightarrow> bool" where
  "email_shaped t =
     (takeWhile is_email_char t \<noteq> [] \<and>
      (case dropWhile is_email_char t of
         [] \<Rightarrow> False
       | a # r \<Rightarrow> a = CHR ''@'' \<and> list_all is_email_char r \<and> has_inner_dot r))"

text \<open>A call that returns, and all four calls of the email step returning.\<close>

definition returns :: "'a result \<Rightarrow> bool" where
  "returns r = (case r of Inl e \<Rightarrow> False | Inr v \<Rightarrow> True)"

definition email_calls_return :: "email_env \<Rightarrow> bool" where
  "email_calls_return env =
     (returns (newPage env) \<and> returns (page2_goto env) \<and> returns (page2_content env) \<and>
      returns (page2_close env))"

section \<open>Sample pages\<close>

text \<open>A listing page on which nothing optional is found and no call raises.\<close>

definition blank_reviews_env :: reviews_env where
  "blank_reviews_env =
     \<lparr>reviewsTabBtn_count = Inr 0, reviewsTabBtn_click = Inr (), waitForSelector_review = Inr (),
      reviewsContainer_count = Inr 0, reviewsContainer_evaluate = (\<lambda>i. Inr ()),
      scroll_waitForTimeout = (\<lambda>i. Inr ()), moreButtons = Inr 0, reviewElements = Inr [],
      categories_waitForTimeout = Inr (), categoryButtons = Inr []\<rparr>"

definition blank_page :: page_env where
  "blank_page =
     \<lparr>basics = \<lparr>goto = Inr (), h1_textContent = Inr (Str ''Real Biz''), buttons = Inr [],
                websiteLink = Inr None\<rparr>,
      ratings = \<lparr>ratingEl_count = Inr 0, ratingEl_ariaLabel = Inr Null,
                 textRating_count = Inr 0, textRating_textContent = Inr Null,
                 reviewCountEl_count = Inr 0, reviewCountEl_textContent = Inr Null,
                 reviewCountText_count = Inr 0, reviewCountText_textContent = Inr Null\<rparr>,
      about = \<lparr>aboutTabBtn_count = Inr 0, aboutTabBtn_click = Inr (),
               about_waitForTimeout = Inr (), pageContent = Inr []\<rparr>,
      review_tab = blank_reviews_env,
      site = \<lparr>newPage = Inr (), page2_goto = Inr (), page2_content = Inr [],
              page2_close = Inr ()\<rparr>\<rparr>"

text \<open>A review element with a reviewer, a star label and a text, and no time element.\<close>

definition review_el_full :: review_el where
  "review_el_full =
     \<lparr>d4r55 = Inr (Some \<lparr>rh_ariaLabel = Inr Null, rh_textContent = Inr (Str ''Ann Lee'')\<rparr>),
      contribButton = Inr None, contribLink = Inr None,
      starsEl = Inr (Some (Inr (Str ''5 stars''))),
      textEl = Inr (Some (Inr (Str ''Thanks, John Doe was great''))),
      textDiv = Inr None, timeEl = Inr None\<rparr>"

text \<open>A review element on which no query finds anything.\<close>

definition review_el_empty :: review_el where
  "review_el_empty =
     \<lparr>d4r55 = Inr None, contribButton = Inr None, contribLink = Inr None,
      starsEl = Inr None, textEl = Inr None, textDiv = Inr None, timeEl = Inr None\<rparr>"

text \<open>
  A listing with a website link, an About tab, two review elements, three chips (a theme
  chip, a theme chip whose count has a thousands separator, a navigational chip) and a
  website that shows two addresses.
\<close>

definition sample_chips :: "chip list" where
  "sample_chips =
     [\<lparr>chip_ariaLabel = Inr (Str ''quality, mentioned in 11 reviews''), chip_textContent = Inr (Str ''quality'')\<rparr>,
      \<lparr>chip_ariaLabel = Inr (Str ''price, mentioned in 1,234 reviews''), chip_textContent = Inr (Str ''price'')\<rparr>,
      \<lparr>chip_ariaLabel = Inr Null, chip_textContent = Inr (Str ''Nearby restaurants'')\<rparr>]"

definition sample_page :: page_env where
  "sample_page =
     blank_page
       \<lparr>basics := (basics blank_page)\<lparr>websiteLink := Inr (Some (Inr (Str ''https://realbiz.com'')))\<rparr>,
        about := \<lparr>aboutTabBtn_count = Inr 1, aboutTabBtn_click = Inr (),
                  about_waitForTimeout = Inr (),
                  pageContent = Inr ''<span>Identified as women-owned</span>''\<rparr>,
        review_tab := blank_reviews_env
           \<lparr>reviewsTabBtn_count := Inr 1, reviewElements := Inr [review_el_full, review_el_empty],
            categoryButtons := Inr sample_chips\<rparr>,
        site := (site blank_page)\<lparr>page2_content := Inr ''contact@example.com info@realbiz.com''\<rparr>\<rparr>"

definition sample_review :: js_object where
  "sample_review =
     [(''reviewer'', Str ''Ann Lee''), (''rating'', Str ''5 stars''),
      (''text'', Str ''Thanks, John Doe was great'')]"

text \<open>What \<^verbatim>\<open>runScraper\<close> pushes for the sample page.\<close>

definition sample_listing :: listing where
  "sample_listing =
     \<lparr>url = ''https://maps.test/place/1'', name = Str ''Real Biz'', address = Str [], phone = Str [],
      website = Str ''https://realbiz.com'', rating = Str [], reviewCount = [],
      reviews = [sample_review],
      reviewCategories = [''quality (11)'', ''price, mentioned in 1,234 reviews''],
      mentionedNames = [''John Doe''], email = ''info@realbiz.com'', attributes = None\<rparr>"

text \<open>The sample page with a website whose navigation times out.\<close>

definition timeout_page :: page_env where
  "timeout_page = sample_page\<lparr>site := (site sample_page)\<lparr>page2_goto := Inl TimeoutError\<rparr>\<rparr>"

lemma category_scenario:
  "category_entry ''quality, mentioned in 11 reviews'' = ''quality (11)''"
  by code_simp

lemma names_scenario:
  "match_names ''Thanks, John Doe was great'' = [''John Doe'']"
  by code_simp

lemma email_scenario:
  "harvested_email ''<a href=mailto:contact@example.com>x</a> info@realbiz.com <img src=a@2x.png>''
     = Some ''info@realbiz.com''"
  by code_simp

lemma sample_server:
  "server_scrape_listing ''https://maps.test/place/1'' sample_page = Inr sample_listing"
  by code_simp

lemma sample_cli:
  "cli_scrape_listing ''https://maps.test/place/1'' sample_page
     = Inr (sample_listing\<lparr>attributes := Some [''Women-owned'']\<rparr>)"
  by code_simp

section \<open>The scroll loop\<close>

text \<open>
  The loop is left as soon as the feed shows \<open>MAX_RESULTS\<close> listings, and after one
  pass when it shows none.
\<close>

lemma scroll_loop_full_feed:
  "scroll_loop (Suc fuel) (stalled_feed 10) i = Some (Inr i)"
  by (simp add: stalled_feed_def MAX_RESULTS_def)

lemma scroll_loop_empty_feed:
  "scroll_loop (Suc fuel) (stalled_feed 0) i = Some (Inr i)"
  by (simp add: stalled_feed_def MAX_RESULTS_def)

text \<open>
  Between one and nine listings the only exit is growth: whatever the fuel, on a feed
  that stays at \<open>k\<close> listings the loop is still running when the fuel is used up.
\<close>

lemma scroll_loop_stalled_general:
  "0 < k \<Longrightarrow> k < MAX_RESULTS \<Longrightarrow> scroll_loop fuel (stalled_feed k) i = None"
  by (induction fuel arbitrary: i) (simp_all add: stalled_feed_def)

text \<open>
  Claim C1 (stall termination): for a query whose feed stops growing at \<open>K < MAX_RESULTS\<close>
  listings the scroll loop ends after a bounded number of passes. The code does not: the
  stall test is commented out, and the statement that follows it continues whenever the
  count is between 1 and 9. On a feed that stays at three listings the loop does not
  return for any amount of fuel, from any pass.
\<close>

theorem scroll_loop_stalled_never_returns:
  "scroll_loop fuel (stalled_feed 3) i = None"
  by (induction fuel arbitrary: i) (simp_all add: stalled_feed_def MAX_RESULTS_def)

text \<open>The URLs collected after the loop are distinct and at most \<open>MAX_RESULTS\<close>.\<close>

lemma push_unique_distinct: "distinct acc \<Longrightarrow> distinct (push_unique acc x)"
  by (simp add: push_unique_def)

lemma push_unique_length: "length (push_unique acc x) \<le> Suc (length acc)"
  by (simp add: push_unique_def)

lemma collect_urls_distinct_capped:
  assumes "collect_urls articles urls = Inr out" and "distinct urls"
    and "length urls < MAX_RESULTS"
  shows "distinct out \<and> length out \<le> MAX_RESULTS"
  using assms
proof (induction articles arbitrary: urls)
  case Nil
  then show ?case by simp
next
  case (Cons article articles)
  from Cons.prems(1) obtain href where href: "article = Inr href"
    by (cases article) simp_all
  let ?urls' = "if truthy href
     then (case href of Str h \<Rightarrow> push_unique urls h | Null \<Rightarrow> urls | Undefined \<Rightarrow> urls)
     else urls"
  have d: "distinct ?urls'"
    using Cons.prems(2) by (cases href) (simp_all add: push_unique_distinct)
  have l: "length ?urls' \<le> Suc (length urls)"
    using push_unique_length [of urls] by (cases href) simp_all
  show ?case
  proof (cases "length ?urls' \<ge> MAX_RESULTS")
    case True
    with Cons.prems(1) href have "out = ?urls'" by (simp add: Let_def)
    with d l Cons.prems(3) show ?thesis by simp
  next
    case False
    with Cons.prems(1) href have "collect_urls articles ?urls' = Inr out"
      by (simp add: Let_def)
    from Cons.IH [OF this d] False show ?thesis by simp
  qed
qed

section \<open>The secondary page of the email step\<close>

text \<open>Without a website the step is skipped and no secondary page is opened.\<close>

lemma email_step_skipped:
  assumes "\<not> truthy (website s)"
  shows "cli_extract_email env s = (NotOpened, Inr s)"
    and "server_extract_email env s = (NotOpened, Inr s)"
  using assms by (simp_all add: cli_extract_email_def server_extract_email_def)

text \<open>
  A navigation that raises leaves the secondary page open in both programs, and in the
  script the handler raises in turn.
\<close>

lemma email_navigation_failure:
  assumes "truthy (website s)" and "newPage env = Inr ()" and "page2_goto env = Inl e"
  shows "cli_extract_email env s = (Opened, Inl ReferenceError)"
    and "server_extract_email env s = (Opened, Inr s)"
  using assms by (simp_all add: cli_extract_email_def server_extract_email_def email_try_def)

text \<open>
  In the server an exception of the email step before the field is written leaves the
  record as it was, and the record is kept.
\<close>

lemma server_email_failure_keeps_record:
  assumes "newPage env = Inl e \<or> page2_goto env = Inl e \<or> page2_content env = Inl e"
  shows "snd (server_extract_email env s) = Inr s"
  using assms
  by (auto simp: server_extract_email_def email_try_def split: sum.splits)


text \<open>
  Claim C3 (the secondary page is closed on every exit path of the email step). On the
  page whose website navigation times out, the step of either program ends with the
  secondary page still open: the script's handler raises before it reaches
  \<^verbatim>\<open>page2.close()\<close>, and the server's handler does not close at all.
\<close>

theorem email_timeout_leaves_page2_open:
  "fst (cli_extract_email (site timeout_page) (sample_listing\<lparr>email := []\<rparr>)) = Opened \<and>
   fst (server_extract_email (site timeout_page) (sample_listing\<lparr>email := []\<rparr>)) = Opened"
  by code_simp

text \<open>
  Claim C4 (a failure of the email step leaves \<^verbatim>\<open>email\<close> empty and never drops the
  listing). On the page whose website navigation times out, the script's handler raises
  a \<open>ReferenceError\<close> that reaches the handler of the listing, so the record is not
  pushed; the server keeps the record, with an empty \<^verbatim>\<open>email\<close>.
\<close>

theorem cli_email_timeout_drops_listing:
  "cli_scrape_listing ''https://maps.test/place/1'' timeout_page = Inl ReferenceError \<and>
   server_scrape_listing ''https://maps.test/place/1'' timeout_page
     = Inr (sample_listing\<lparr>email := []\<rparr>)"
  by code_simp

lemma timeout_page_resultsData:
  "cli_resultsData [(''https://maps.test/place/1'', timeout_page)] = [] \<and>
   runScraper_resultsData [(''https://maps.test/place/1'', timeout_page)]
     = [sample_listing\<lparr>email := []\<rparr>]"
  by code_simp

section \<open>Properties of the steps\<close>

lemma run_steps_preserves:
  assumes "\<And>f s. f \<in> set fs \<Longrightarrow> P s \<Longrightarrow> P (snd (f s))" and "P s"
  shows "P (snd (run_steps fs s))"
  using assms
proof (induction fs arbitrary: s)
  case Nil
  then show ?case by simp
next
  case (Cons f fs)
  have step: "P (snd (f s))" using Cons.prems by simp
  show ?case
  proof (cases "f s")
    case (Pair err s')
    with step have "P s'" by simp
    then show ?thesis
      using Pair Cons.IH [of s'] Cons.prems(1) by (cases err) simp_all
  qed
qed

lemma try_steps_preserves:
  assumes "\<And>f s. f \<in> set fs \<Longrightarrow> P s \<Longrightarrow> P (snd (f s))" and "P s"
  shows "P (try_steps fs s)"
  unfolding try_steps_def using assms by (rule run_steps_preserves)

lemma for_each_preserves:
  assumes "\<And>x s. x \<in> set xs \<Longrightarrow> P s \<Longrightarrow> P (snd (body x s))" and "P s"
  shows "P (snd (for_each body xs s))"
  using assms
proof (induction xs arbitrary: s)
  case Nil
  then show ?case by simp
next
  case (Cons x xs)
  have step: "P (snd (body x s))" using Cons.prems by simp
  show ?case
  proof (cases "body x s")
    case (Pair err s')
    with step have "P s'" by simp
    then show ?thesis
      using Pair Cons.IH [of s'] Cons.prems(1) by (cases err) simp_all
  qed
qed

lemma snd_await_unit [simp]: "snd (await_unit r s) = s"
  by (simp add: await_unit_def split: sum.splits)

lemma scroll_reviews_step_id [simp]: "snd (scroll_reviews_step env d) = d"
proof -
  have "snd (run_steps
      (concat (map (\<lambda>i. [await_unit (reviewsContainer_evaluate env i),
                          await_unit (scroll_waitForTimeout env i)]) [0 ..< 3])) d) = d"
    by (rule run_steps_preserves [where P = "\<lambda>s. s = d"]) auto
  then show ?thesis
    by (simp add: scroll_reviews_step_def split: sum.splits)
qed

lemma harvest_step_preserves:
  assumes loop: "\<And>els s. reviewElements env = Inr els \<Longrightarrow> P s \<Longrightarrow>
                   P (s\<lparr>reviews := review_loop els (reviews s)\<rparr>)"
    and "P d"
  shows "P (snd (harvest_step env d))"
proof -
  have "P (snd (run_steps
              [await_unit (reviewsTabBtn_click env),
               await_unit (waitForSelector_review env),
               scroll_reviews_step env,
               await_unit (moreButtons env),
               read_reviews_step env] d))"
  proof (rule run_steps_preserves [where P = P, OF _ \<open>P d\<close>])
    fix f s
    assume "f \<in> set [await_unit (reviewsTabBtn_click env),
               await_unit (waitForSelector_review env),
               scroll_reviews_step env,
               await_unit (moreButtons env),
               read_reviews_step env]"
      and s: "P s"
    then consider "snd (f s) = s" | "f = read_reviews_step env"
      by auto
    then show "P (snd (f s))"
    proof cases
      case 1
      with s show ?thesis by simp
    next
      case 2
      with s loop show ?thesis
        by (simp add: read_reviews_step_def split: sum.splits)
    qed
  qed
  with \<open>P d\<close> show ?thesis
    by (simp add: harvest_step_def split: sum.splits)
qed

lemma chip_step_cases:
  "snd (chip_step btn d) = d \<or>
   (\<exists>l. chip_label btn = Some l \<and> js_includes l ''mentioned in'' \<and>
      snd (chip_step btn d) = d\<lparr>reviewCategories := reviewCategories d @ [category_entry l]\<rparr>)"
  by (auto simp: chip_step_def chip_label_def split: sum.splits jsval.splits)

lemma categories_step_preserves:
  assumes reset: "\<And>s. P s \<Longrightarrow> P (s\<lparr>reviewCategories := []\<rparr>)"
    and push: "\<And>btns btn l s. categoryButtons env = Inr btns \<Longrightarrow> btn \<in> set btns \<Longrightarrow>
        chip_label btn = Some l \<Longrightarrow> js_includes l ''mentioned in'' \<Longrightarrow> P s \<Longrightarrow>
        P (s\<lparr>reviewCategories := reviewCategories s @ [category_entry l]\<rparr>)"
    and "P d"
  shows "P (snd (categories_step env d))"
  unfolding categories_step_def
proof (rule run_steps_preserves [where P = P, OF _ \<open>P d\<close>])
  fix f s
  assume f: "f \<in> set [reset_categories_step,
        await_unit (categories_waitForTimeout env), chips_step env]"
    and s: "P s"
  have chips: "P (snd (for_each chip_step btns s))" if btns: "categoryButtons env = Inr btns" for btns
  proof (rule for_each_preserves [where P = P, OF _ s])
    fix x t
    assume "x \<in> set btns" and "P t"
    with push [OF btns] chip_step_cases [of x t] show "P (snd (chip_step x t))"
      by auto
  qed
  from f s reset chips show "P (snd (f s))"
    by (auto simp: reset_categories_step_def chips_step_def split: sum.splits)
qed

lemma extract_reviews_preserves:
  assumes loop: "\<And>els s. reviewElements env = Inr els \<Longrightarrow> P s \<Longrightarrow>
                   P (s\<lparr>reviews := review_loop els (reviews s)\<rparr>)"
    and reset: "\<And>s. P s \<Longrightarrow> P (s\<lparr>reviewCategories := []\<rparr>)"
    and push: "\<And>btns btn l s. categoryButtons env = Inr btns \<Longrightarrow> btn \<in> set btns \<Longrightarrow>
        chip_label btn = Some l \<Longrightarrow> js_includes l ''mentioned in'' \<Longrightarrow> P s \<Longrightarrow>
        P (s\<lparr>reviewCategories := reviewCategories s @ [category_entry l]\<rparr>)"
    and names: "\<And>s. P s \<Longrightarrow> P (s\<lparr>mentionedNames := extract_names (reviews s)\<rparr>)"
    and "P d"
  shows "P (extract_reviews env d)"
  unfolding extract_reviews_def
proof (rule try_steps_preserves [where P = P, OF _ \<open>P d\<close>])
  fix f s
  assume "f \<in> set [harvest_step env, categories_step env, names_step]" and s: "P s"
  then consider "f = harvest_step env" | "f = categories_step env" | "f = names_step"
    by auto
  then show "P (snd (f s))"
  proof cases
    case 1
    then show ?thesis using harvest_step_preserves [of env P s] loop s by simp
  next
    case 2
    then show ?thesis using categories_step_preserves [of P env s] reset push s by blast
  next
    case 3
    then show ?thesis using names [OF s] by (simp add: names_step_def)
  qed
qed

lemma item_button_step_derived:
  "item_button_step btn s = Inr s' \<Longrightarrow> derived_fields_unset s \<Longrightarrow> attributes s = None \<Longrightarrow>
     derived_fields_unset s' \<and> attributes s' = None"
  by (auto simp: item_button_step_def derived_fields_unset_def Let_def
           split: sum.splits jsval.splits if_splits)

lemma item_buttons_loop_derived:
  "item_buttons_loop btns s = Inr s' \<Longrightarrow> derived_fields_unset s \<Longrightarrow> attributes s = None \<Longrightarrow>
     derived_fields_unset s' \<and> attributes s' = None"
proof (induction btns arbitrary: s)
  case Nil
  then show ?case by simp
next
  case (Cons btn btns)
  from Cons.prems(1) obtain t where t: "item_button_step btn s = Inr t"
    and rest: "item_buttons_loop btns t = Inr s'"
    by (auto split: sum.splits)
  from item_button_step_derived [OF t Cons.prems(2,3)] Cons.IH [OF rest]
  show ?case by simp
qed

lemma resolve_rating_derived:
  assumes "derived_fields_unset s" and "attributes s = None"
  shows "derived_fields_unset (resolve_rating env s) \<and> attributes (resolve_rating env s) = None"
  unfolding resolve_rating_def
proof (rule try_steps_preserves
    [where P = "\<lambda>s. derived_fields_unset s \<and> attributes s = None"])
  show "derived_fields_unset s \<and> attributes s = None" using assms by simp
next
  fix f t
  assume "f \<in> set [rating_step env, review_count_step env]"
    and "derived_fields_unset t \<and> attributes t = None"
  then show "derived_fields_unset (snd (f t)) \<and> attributes (snd (f t)) = None"
    by (auto simp: rating_step_def review_count_step_def review_count_from_def
          derived_fields_unset_def split: sum.splits jsval.splits)
qed

lemma resolve_fields_derived:
  assumes "resolve_fields env u = Inr d0"
  shows "derived_fields_unset d0 \<and> attributes d0 = None"
proof -
  let ?n = "resolve_name (basics env) (new_listing u)"
  have n: "derived_fields_unset ?n \<and> attributes ?n = None"
    by (simp add: resolve_name_def new_listing_def derived_fields_unset_def split: sum.splits)
  from assms obtain b w where b: "resolve_buttons (basics env) ?n = Inr b"
    and w: "resolve_website_link (basics env) b = Inr w"
    and d0: "d0 = resolve_rating (ratings env) w"
    by (auto simp: resolve_fields_def split: sum.splits)
  from b n have "derived_fields_unset b \<and> attributes b = None"
    by (auto simp: resolve_buttons_def split: sum.splits dest: item_buttons_loop_derived)
  with w have "derived_fields_unset w \<and> attributes w = None"
    by (auto simp: resolve_website_link_def derived_fields_unset_def
          split: sum.splits option.splits)
  with d0 show ?thesis using resolve_rating_derived by simp
qed

lemma extract_attributes_frame:
  "\<exists>a. extract_attributes env s = s\<lparr>attributes := a\<rparr>"
proof -
  have "extract_attributes env s = s \<or> (\<exists>a. extract_attributes env s = s\<lparr>attributes := a\<rparr>)"
    by (auto simp: extract_attributes_def try_steps_def about_step_def split: sum.splits)
  moreover have "s = s\<lparr>attributes := attributes s\<rparr>" by simp
  ultimately show ?thesis by metis
qed

lemma email_try_cases:
  "snd (snd (email_try env s)) = s \<or>
   (\<exists>content joined. page2_content env = Inr content \<and> harvested_email content = Some joined \<and>
      snd (snd (email_try env s)) = s\<lparr>email := joined\<rparr>)"
  by (auto simp: email_try_def Let_def split: sum.splits option.splits)

lemma cli_extract_email_cases:
  assumes "snd (cli_extract_email env s) = Inr d"
  shows "d = s \<or>
   (\<exists>content joined. page2_content env = Inr content \<and> harvested_email content = Some joined \<and>
      d = s\<lparr>email := joined\<rparr>)"
proof (cases "truthy (website s)")
  case False
  with assms show ?thesis by (simp add: cli_extract_email_def)
next
  case True
  obtain err p2 t where t: "email_try env s = (err, p2, t)"
    by (cases "email_try env s") auto
  with assms True have "d = t"
    by (cases err) (simp_all add: cli_extract_email_def)
  with t email_try_cases [of env s] show ?thesis by simp
qed

lemma server_extract_email_cases:
  assumes "snd (server_extract_email env s) = Inr d"
  shows "d = s \<or>
   (\<exists>content joined. page2_content env = Inr content \<and> harvested_email content = Some joined \<and>
      d = s\<lparr>email := joined\<rparr>)"
proof (cases "truthy (website s)")
  case False
  with assms show ?thesis by (simp add: server_extract_email_def)
next
  case True
  obtain err p2 t where t: "email_try env s = (err, p2, t)"
    by (cases "email_try env s") auto
  with assms True have "d = t"
    by (simp add: server_extract_email_def)
  with t email_try_cases [of env s] show ?thesis by simp
qed


lemma run_steps_skip:
  assumes "snd (f s) = s"
  shows "run_steps (f # fs) s = (fst (f s), s) \<and> fst (f s) \<noteq> None \<or>
         run_steps (f # fs) s = run_steps fs s"
proof (cases "f s")
  case (Pair err s')
  with assms have "s' = s" by simp
  with Pair show ?thesis by (cases err) simp_all
qed

lemma harvest_step_cases:
  "snd (harvest_step env s) = s \<or>
   (\<exists>els. reviewElements env = Inr els \<and>
      snd (harvest_step env s) = s\<lparr>reviews := review_loop els (reviews s)\<rparr>)"
proof -
  let ?r = "read_reviews_step env"
  let ?fs4 = "[await_unit (moreButtons env), ?r]"
  let ?fs3 = "scroll_reviews_step env # ?fs4"
  let ?fs2 = "await_unit (waitForSelector_review env) # ?fs3"
  let ?fs1 = "await_unit (reviewsTabBtn_click env) # ?fs2"
  have r: "snd (run_steps [?r] s) = s \<or>
      (\<exists>els. reviewElements env = Inr els \<and>
         snd (run_steps [?r] s) = s\<lparr>reviews := review_loop els (reviews s)\<rparr>)"
    by (simp add: read_reviews_step_def split: sum.splits)
  have "snd (run_steps ?fs4 s) = s \<or> run_steps ?fs4 s = run_steps [?r] s"
    using run_steps_skip [of "await_unit (moreButtons env)" s "[?r]"] by auto
  moreover have "snd (run_steps ?fs3 s) = s \<or> run_steps ?fs3 s = run_steps ?fs4 s"
    using run_steps_skip [of "scroll_reviews_step env" s ?fs4] by auto
  moreover have "snd (run_steps ?fs2 s) = s \<or> run_steps ?fs2 s = run_steps ?fs3 s"
    using run_steps_skip [of "await_unit (waitForSelector_review env)" s ?fs3] by auto
  moreover have "snd (run_steps ?fs1 s) = s \<or> run_steps ?fs1 s = run_steps ?fs2 s"
    using run_steps_skip [of "await_unit (reviewsTabBtn_click env)" s ?fs2] by auto
  ultimately have "snd (run_steps ?fs1 s) = s \<or>
      (\<exists>els. reviewElements env = Inr els \<and>
         snd (run_steps ?fs1 s) = s\<lparr>reviews := review_loop els (reviews s)\<rparr>)"
    using r by metis
  then show ?thesis
    by (simp add: harvest_step_def split: sum.splits)
qed

lemma categories_step_frame:
  "reviews (snd (categories_step env s)) = reviews s \<and>
   mentionedNames (snd (categories_step env s)) = mentionedNames s"
  by (rule categories_step_preserves
        [where P = "\<lambda>t. reviews t = reviews s \<and> mentionedNames t = mentionedNames s"])
     simp_all

text \<open>The block, by the outcomes of its first two steps.\<close>

lemma extract_reviews_unfold:
  assumes "harvest_step env s = (e1, s1)" and "categories_step env s1 = (e2, s2)"
  shows "extract_reviews env s =
     (case e1 of
        Some e \<Rightarrow> s1
      | None \<Rightarrow> (case e2 of Some e \<Rightarrow> s2 | None \<Rightarrow> snd (names_step s2)))"
  using assms
  by (simp add: extract_reviews_def try_steps_def names_step_def split: option.splits)

text \<open>What the block leaves in \<open>reviews\<close> and \<open>mentionedNames\<close>.\<close>

lemma extract_reviews_cases:
  assumes "derived_fields_unset s"
  shows "(reviews (extract_reviews env s) = [] \<or>
          (\<exists>els. reviewElements env = Inr els \<and>
             reviews (extract_reviews env s) = review_loop els [])) \<and>
         (mentionedNames (extract_reviews env s) = [] \<or>
          mentionedNames (extract_reviews env s) = extract_names (reviews (extract_reviews env s)))"
proof -
  obtain e1 s1 where h: "harvest_step env s = (e1, s1)"
    by (cases "harvest_step env s") auto
  obtain e2 s2 where c: "categories_step env s1 = (e2, s2)"
    by (cases "categories_step env s1") auto
  let ?r = "extract_reviews env s"
  from assms have s: "reviews s = []" "mentionedNames s = []"
    by (simp_all add: derived_fields_unset_def)
  have "reviews s1 = reviews s \<or>
      (\<exists>els. reviewElements env = Inr els \<and> reviews s1 = review_loop els (reviews s))"
    using harvest_step_cases [of env s] h by auto
  with s have rs1: "reviews s1 = [] \<or>
      (\<exists>els. reviewElements env = Inr els \<and> reviews s1 = review_loop els [])"
    by simp
  have "mentionedNames (snd (harvest_step env s)) = mentionedNames s"
    by (rule harvest_step_preserves [where P = "\<lambda>t. mentionedNames t = mentionedNames s"])
       simp_all
  with h s have ns1: "mentionedNames s1 = []" by simp
  from categories_step_frame [of env s1] c ns1
  have s2: "reviews s2 = reviews s1" "mentionedNames s2 = []"
    by simp_all
  have r: "reviews ?r = reviews s1"
    unfolding extract_reviews_unfold [OF h c]
    using s2 by (simp add: names_step_def split: option.splits)
  have n: "mentionedNames ?r = [] \<or> mentionedNames ?r = extract_names (reviews s1)"
    unfolding extract_reviews_unfold [OF h c]
    using s2 ns1 by (simp add: names_step_def split: option.splits)
  from r rs1 n show ?thesis by simp
qed

text \<open>A produced record is the outcome of the review block, with or without an email.\<close>

lemma produced_decompose:
  assumes "produced u env d"
  shows "\<exists>s. derived_fields_unset s \<and>
           (d = extract_reviews (review_tab env) s \<or>
            (\<exists>content joined. page2_content (site env) = Inr content \<and>
               harvested_email content = Some joined \<and>
               d = (extract_reviews (review_tab env) s)\<lparr>email := joined\<rparr>))"
proof -
  from assms consider
      (cli) d0 where "resolve_fields env u = Inr d0"
        "snd (cli_extract_email (site env)
           (extract_reviews (review_tab env) (extract_attributes (about env) d0))) = Inr d"
    | (server) d0 where "resolve_fields env u = Inr d0"
        "snd (server_extract_email (site env) (extract_reviews (review_tab env) d0)) = Inr d"
    by (auto simp: produced_def cli_scrape_listing_def server_scrape_listing_def split: sum.splits)
  then show ?thesis
  proof cases
    case cli
    from resolve_fields_derived [OF cli(1)] extract_attributes_frame [of "about env" d0]
    have "derived_fields_unset (extract_attributes (about env) d0)"
      by (auto simp: derived_fields_unset_def)
    with cli_extract_email_cases [OF cli(2)] show ?thesis by blast
  next
    case server
    from resolve_fields_derived [OF server(1)] server_extract_email_cases [OF server(2)]
    show ?thesis by blast
  qed
qed

text \<open>The same, field by field.\<close>

lemma produced_fields:
  assumes "produced u env d"
  shows "\<exists>s. derived_fields_unset s \<and>
           reviews d = reviews (extract_reviews (review_tab env) s) \<and>
           reviewCategories d = reviewCategories (extract_reviews (review_tab env) s) \<and>
           mentionedNames d = mentionedNames (extract_reviews (review_tab env) s)"
proof -
  from produced_decompose [OF assms] obtain s where s: "derived_fields_unset s"
    and d: "d = extract_reviews (review_tab env) s \<or>
            (\<exists>joined. d = (extract_reviews (review_tab env) s)\<lparr>email := joined\<rparr>)"
    by blast
  from d have "reviews d = reviews (extract_reviews (review_tab env) s) \<and>
           reviewCategories d = reviewCategories (extract_reviews (review_tab env) s) \<and>
           mentionedNames d = mentionedNames (extract_reviews (review_tab env) s)"
  proof
    assume "d = extract_reviews (review_tab env) s"
    then show ?thesis by simp
  next
    assume "\<exists>joined. d = (extract_reviews (review_tab env) s)\<lparr>email := joined\<rparr>"
    then obtain joined where "d = (extract_reviews (review_tab env) s)\<lparr>email := joined\<rparr>" ..
    then show ?thesis by simp
  qed
  with s show ?thesis by blast
qed

text \<open>The induction principle over the pipeline of one listing.\<close>

lemma produced_preserves:
  assumes prod: "produced u env d"
    and start: "\<And>s. derived_fields_unset s \<Longrightarrow> P s"
    and loop: "\<And>els s. reviewElements (review_tab env) = Inr els \<Longrightarrow> P s \<Longrightarrow>
                   P (s\<lparr>reviews := review_loop els (reviews s)\<rparr>)"
    and reset: "\<And>s. P s \<Longrightarrow> P (s\<lparr>reviewCategories := []\<rparr>)"
    and push: "\<And>btns btn l s. categoryButtons (review_tab env) = Inr btns \<Longrightarrow> btn \<in> set btns \<Longrightarrow>
        chip_label btn = Some l \<Longrightarrow> js_includes l ''mentioned in'' \<Longrightarrow> P s \<Longrightarrow>
        P (s\<lparr>reviewCategories := reviewCategories s @ [category_entry l]\<rparr>)"
    and names: "\<And>s. P s \<Longrightarrow> P (s\<lparr>mentionedNames := extract_names (reviews s)\<rparr>)"
    and mail: "\<And>content joined s. page2_content (site env) = Inr content \<Longrightarrow>
        harvested_email content = Some joined \<Longrightarrow> P s \<Longrightarrow> P (s\<lparr>email := joined\<rparr>)"
  shows "P d"
proof -
  have after_reviews: "P (extract_reviews (review_tab env) s)" if "derived_fields_unset s" for s
    using loop reset push names start [OF that]
    by (rule extract_reviews_preserves [where P = P])
  from produced_decompose [OF prod] after_reviews mail show ?thesis
    by auto
qed

section \<open>Reviews of a produced record\<close>

lemma review_loop_capped:
  "length acc < 10 \<Longrightarrow> length (review_loop els acc) \<le> 10"
  by (induction els arbitrary: acc) (auto simp: Let_def)

lemma review_loop_has_data:
  "list_all has_some_data acc \<Longrightarrow> list_all has_some_data (review_loop els acc)"
  by (induction els arbitrary: acc) (auto simp: Let_def)

lemma review_loop_sources:
  "x \<in> set (review_loop els acc) \<Longrightarrow> x \<in> set acc \<or> x \<in> extract_review ` set els"
proof (induction els arbitrary: acc)
  case Nil
  then show ?case by simp
next
  case (Cons el els)
  let ?acc' = "if has_some_data (extract_review el) then acc @ [extract_review el] else acc"
  have acc': "set ?acc' \<subseteq> set acc \<union> {extract_review el}" by auto
  from Cons.prems have "x \<in> set ?acc' \<or> x \<in> set (review_loop els ?acc')"
    by (auto simp: Let_def split: if_splits)
  with Cons.IH [of ?acc'] acc' show ?case by auto
qed

text \<open>
  Claim C6: every produced record has at most ten reviews, and every review in it has a
  non-empty \<^verbatim>\<open>reviewer\<close>, \<^verbatim>\<open>text\<close> or \<^verbatim>\<open>rating\<close> (a truthy value is a non-empty
  string).
\<close>

theorem reviews_capped_and_nonempty:
  assumes "produced u env d"
  shows "length (reviews d) \<le> 10 \<and>
         (\<forall>r \<in> set (reviews d).
            truthy (get_prop r ''reviewer'') \<or> truthy (get_prop r ''text'') \<or>
            truthy (get_prop r ''rating''))"
proof -
  from produced_fields [OF assms] obtain s where s: "derived_fields_unset s"
    and d: "reviews d = reviews (extract_reviews (review_tab env) s)"
    by blast
  from extract_reviews_cases [OF s, of "review_tab env"] d
  have "reviews d = [] \<or> (\<exists>els. reviews d = review_loop els [])"
    by auto
  then have "length (reviews d) \<le> 10 \<and> list_all has_some_data (reviews d)"
    using review_loop_capped [of "[]"] review_loop_has_data [of "[]"] by auto
  then show ?thesis
    by (simp add: list_all_iff has_some_data_def)
qed

theorem reviews_capped_and_nonempty_witness:
  "produced ''https://maps.test/place/1'' sample_page sample_listing \<and>
   length (reviews sample_listing) \<le> 10 \<and>
   truthy (get_prop (hd (reviews sample_listing)) ''reviewer'')"
proof -
  have p: "produced ''https://maps.test/place/1'' sample_page sample_listing"
    by (simp add: produced_def sample_server)
  from reviews_capped_and_nonempty [OF p] p show ?thesis
    by (simp add: sample_listing_def sample_review_def get_prop_def)
qed

lemma has_prop_set_prop: "has_prop (set_prop obj k v) k' \<longleftrightarrow> k' = k \<or> has_prop obj k'"
  by (induction obj k v rule: set_prop.induct) (auto simp: has_prop_def)

lemma assign_from_keys:
  "has_prop (snd (assign_from k h obj)) k' \<Longrightarrow> (k' = k \<and> h \<noteq> None) \<or> has_prop obj k'"
  by (auto simp: assign_from_def has_prop_set_prop split: option.splits sum.splits)

lemma step_reviewer_keys:
  "has_prop (snd (step_reviewer el obj)) k \<Longrightarrow> (k = ''reviewer'' \<and> reviewer_found el) \<or> has_prop obj k"
  by (auto simp: step_reviewer_def reviewer_found_def found_def dest!: assign_from_keys
           split: sum.splits option.splits)

lemma step_rating_keys:
  "has_prop (snd (step_rating el obj)) k \<Longrightarrow> (k = ''rating'' \<and> rating_found el) \<or> has_prop obj k"
  by (auto simp: step_rating_def rating_found_def found_def dest!: assign_from_keys
           split: sum.splits option.splits)

lemma step_text_keys:
  "has_prop (snd (step_text el obj)) k \<Longrightarrow> (k = ''text'' \<and> text_found el) \<or> has_prop obj k"
  by (auto simp: step_text_def text_found_def found_def or_query_def dest!: assign_from_keys
           split: sum.splits option.splits)

lemma step_time_keys:
  "has_prop (snd (step_time el obj)) k \<Longrightarrow> (k = ''time'' \<and> time_found el) \<or> has_prop obj k"
  by (auto simp: step_time_def time_found_def found_def dest!: assign_from_keys
           split: sum.splits option.splits)

lemma extract_review_keys:
  assumes "has_prop (extract_review el) k"
  shows "key_found el k"
proof -
  have "has_prop (extract_review el) k \<longrightarrow> key_found el k"
    unfolding extract_review_def
  proof (rule try_steps_preserves [where P = "\<lambda>obj. has_prop obj k \<longrightarrow> key_found el k"])
    show "has_prop [] k \<longrightarrow> key_found el k" by (simp add: has_prop_def)
  next
    fix f obj
    assume "f \<in> set [step_reviewer el, step_rating el, step_text el, step_time el]"
      and "has_prop obj k \<longrightarrow> key_found el k"
    then show "has_prop (snd (f obj)) k \<longrightarrow> key_found el k"
      using step_reviewer_keys [of el obj k] step_rating_keys [of el obj k]
        step_text_keys [of el obj k] step_time_keys [of el obj k]
      by (auto simp: key_found_def)
  qed
  with assms show ?thesis by simp
qed

text \<open>
  Claim C10: every review of a produced record is what the loop body extracted from one
  of the page's review elements, and a key whose resolution chain found no element on
  that review element is not a key of the review: it was never assigned, so it is neither
  an empty string nor \<^verbatim>\<open>null\<close>.
\<close>

theorem unresolved_review_fields_absent:
  assumes "produced u env d" and "r \<in> set (reviews d)"
  shows "\<exists>el \<in> set (env_review_els env). r = extract_review el \<and>
           (\<not> reviewer_found el \<longrightarrow> \<not> has_prop r ''reviewer'') \<and>
           (\<not> rating_found el \<longrightarrow> \<not> has_prop r ''rating'') \<and>
           (\<not> text_found el \<longrightarrow> \<not> has_prop r ''text'') \<and>
           (\<not> time_found el \<longrightarrow> \<not> has_prop r ''time'')"
proof -
  have "set (reviews d) \<subseteq> extract_review ` set (env_review_els env)"
    using assms(1)
  proof (rule produced_preserves)
    fix els s
    assume "reviewElements (review_tab env) = Inr els"
      and "set (reviews s) \<subseteq> extract_review ` set (env_review_els env)"
    then show "set (reviews (s\<lparr>reviews := review_loop els (reviews s)\<rparr>))
        \<subseteq> extract_review ` set (env_review_els env)"
      using review_loop_sources [of _ els "reviews s"] by (auto simp: env_review_els_def)
  qed (simp_all add: derived_fields_unset_def)
  with assms(2) obtain el where el: "el \<in> set (env_review_els env)" and r: "r = extract_review el"
    by auto
  have "\<not> key_found el k \<Longrightarrow> \<not> has_prop r k" for k
    using extract_review_keys [of el k] r by auto
  from this [of "''reviewer''"] this [of "''rating''"] this [of "''text''"] this [of "''time''"] el r
  show ?thesis
    by (auto simp: key_found_def)
qed

theorem unresolved_review_fields_absent_witness:
  "produced ''https://maps.test/place/1'' sample_page sample_listing \<and>
   sample_review \<in> set (reviews sample_listing) \<and>
   \<not> time_found review_el_full \<and> \<not> has_prop sample_review ''time''"
proof -
  have p: "produced ''https://maps.test/place/1'' sample_page sample_listing"
    by (simp add: produced_def sample_server)
  have r: "sample_review \<in> set (reviews sample_listing)"
    by (simp add: sample_listing_def)
  have e: "extract_review review_el_full = sample_review"
    by code_simp
  have e': "extract_review review_el_empty \<noteq> sample_review"
    by code_simp
  have els: "env_review_els sample_page = [review_el_full, review_el_empty]"
    by (simp add: env_review_els_def sample_page_def blank_page_def blank_reviews_env_def)
  have t: "\<not> time_found review_el_full"
    by (simp add: time_found_def found_def review_el_full_def)
  from unresolved_review_fields_absent [OF p r] els e e' t
  have "\<not> has_prop sample_review ''time''"
    by auto
  with p r t show ?thesis by simp
qed

section \<open>Mentioned names of a produced record\<close>

lemma set_values_first_occurrences: "set_values xs = first_occurrences xs"
  unfolding set_values_def first_occurrences_def
  by (induction xs rule: rev_induct) (simp_all add: push_unique_def)

lemma distinct_first_occurrences: "distinct (first_occurrences xs)"
  by (simp add: first_occurrences_def)

lemma set_first_occurrences: "set (first_occurrences xs) = set xs"
  by (simp add: first_occurrences_def)

lemma accept_name_push:
  "accept_name acc n =
     (if acceptable_name (js_trim n) then push_unique acc (js_trim n) else acc)"
  by (simp add: accept_name_def acceptable_name_def push_unique_def Let_def)

lemma foldl_accept_name:
  "foldl accept_name acc ns = foldl push_unique acc (filter acceptable_name (map js_trim ns))"
  by (induction ns arbitrary: acc) (simp_all add: accept_name_push)

lemma foldl_names_of_review:
  "foldl names_of_review acc rs =
     foldl push_unique acc (filter acceptable_name (name_candidates rs))"
proof (induction rs arbitrary: acc)
  case Nil
  then show ?case by (simp add: name_candidates_def)
next
  case (Cons r rs)
  have c: "name_candidates (r # rs) = map js_trim (match_names (review_text r)) @ name_candidates rs"
    by (simp add: name_candidates_def)
  have step: "names_of_review acc r =
      foldl push_unique acc (filter acceptable_name (map js_trim (match_names (review_text r))))"
    by (simp add: names_of_review_def foldl_accept_name)
  show ?case
    by (simp add: Cons.IH step c)
qed

text \<open>
  The loops over the reviews and over the matches of each text compute the first
  occurrences of the acceptable candidates.
\<close>

lemma extract_names_first_occurrences:
  "extract_names rs = first_occurrences (filter acceptable_name (name_candidates rs))"
  using foldl_names_of_review [of "[]" rs]
  by (simp add: extract_names_def set_values_first_occurrences [symmetric] set_values_def)

lemma names_scenario_repeated:
  "extract_names
     [[(''text'', Str ''Thanks, John Doe was great'')],
      [(''reviewer'', Str ''Al''), (''text'', Str ''Ask for John Doe or try Google Maps'')]]
   = [''John Doe'']"
  by code_simp

text \<open>
  Claim C7: in every produced record \<^verbatim>\<open>mentionedNames\<close> has no duplicates, contains no
  entry of the exclusion list, and lists the acceptable name candidates of the record's
  review texts in the order in which each is first seen. (The list is empty when an
  exception ended the review block before the names were mined.)
\<close>

theorem mentioned_names_distinct_filtered_ordered:
  assumes "produced u env d"
  shows "distinct (mentionedNames d) \<and>
         (\<forall>n \<in> set (mentionedNames d). n \<notin> set excludeWords) \<and>
         (mentionedNames d = [] \<or>
          mentionedNames d =
            first_occurrences (filter acceptable_name (name_candidates (reviews d))))"
proof -
  from produced_fields [OF assms] obtain s where s: "derived_fields_unset s"
    and r: "reviews d = reviews (extract_reviews (review_tab env) s)"
    and n: "mentionedNames d = mentionedNames (extract_reviews (review_tab env) s)"
    by blast
  from extract_reviews_cases [OF s, of "review_tab env"] r n
  have "mentionedNames d = [] \<or> mentionedNames d = extract_names (reviews d)"
    by simp
  then have order: "mentionedNames d = [] \<or>
      mentionedNames d = first_occurrences (filter acceptable_name (name_candidates (reviews d)))"
    by (simp add: extract_names_first_occurrences)
  have dist: "distinct (mentionedNames d)"
  proof (rule disjE [OF order])
    assume "mentionedNames d = []"
    then show ?thesis by simp
  next
    assume "mentionedNames d =
      first_occurrences (filter acceptable_name (name_candidates (reviews d)))"
    then show ?thesis by (simp only: distinct_first_occurrences)
  qed
  have excl: "n \<notin> set excludeWords" if "n \<in> set (mentionedNames d)" for n
  proof (rule disjE [OF order])
    assume "mentionedNames d = []"
    with that show ?thesis by simp
  next
    assume "mentionedNames d =
      first_occurrences (filter acceptable_name (name_candidates (reviews d)))"
    with that have "n \<in> set (filter acceptable_name (name_candidates (reviews d)))"
      by (simp only: set_first_occurrences)
    then have "acceptable_name n" by simp
    then show ?thesis unfolding acceptable_name_def by blast
  qed
  from dist excl order show ?thesis by blast
qed

theorem mentioned_names_distinct_filtered_ordered_witness:
  "produced ''https://maps.test/place/1'' sample_page sample_listing \<and>
   mentionedNames sample_listing = [''John Doe''] \<and>
   distinct (mentionedNames sample_listing) \<and>
   ''John Doe'' \<notin> set excludeWords"
proof -
  have p: "produced ''https://maps.test/place/1'' sample_page sample_listing"
    by (simp add: produced_def sample_server)
  have m: "mentionedNames sample_listing = [''John Doe'']"
    by (simp add: sample_listing_def)
  from mentioned_names_distinct_filtered_ordered [OF p]
  have "distinct (mentionedNames sample_listing) \<and>
        (\<forall>n \<in> set (mentionedNames sample_listing). n \<notin> set excludeWords)"
    by blast
  with p m show ?thesis
    by simp
qed

section \<open>The email field of a produced record\<close>

lemma at_sign_not_email_char: "\<not> is_email_char CHR ''@''"
  by (simp add: is_email_char_def is_upper_def is_lower_def is_digit_def)

lemma dot_is_email_char: "is_email_char CHR ''.''"
  by (simp add: is_email_char_def)

text \<open>
  \<open>email_shaped\<close> is the pattern read as a whole: local part, \<^verbatim>\<open>@\<close>, domain, dot and
  a last label, each non-empty and made of class characters.
\<close>

lemma has_inner_dot_iff:
  "has_inner_dot r \<longleftrightarrow> (\<exists>dom e. r = dom @ ''.'' @ e \<and> dom \<noteq> [] \<and> e \<noteq> [])"
proof
  assume "has_inner_dot r"
  then have dot: "CHR ''.'' \<in> set (butlast (tl r))"
    by (simp add: has_inner_dot_def)
  then obtain x r' where r: "r = x # r'" by (cases r) auto
  with dot have "r' \<noteq> []" by auto
  then obtain r'' z where r': "r' = r'' @ [z]" by (cases r' rule: rev_cases) auto
  with dot r obtain a b where "r'' = a @ CHR ''.'' # b"
    by (auto simp: in_set_conv_decomp)
  with r r' have "r = (x # a) @ ''.'' @ (b @ [z])" by simp
  then show "\<exists>dom e. r = dom @ ''.'' @ e \<and> dom \<noteq> [] \<and> e \<noteq> []" by blast
next
  assume "\<exists>dom e. r = dom @ ''.'' @ e \<and> dom \<noteq> [] \<and> e \<noteq> []"
  then obtain dom e where r: "r = dom @ ''.'' @ e" and ne: "dom \<noteq> []" "e \<noteq> []" by blast
  from ne(1) obtain x a where dom: "dom = x # a" by (cases dom) auto
  from ne(2) obtain b z where e: "e = b @ [z]" by (cases e rule: rev_cases) auto
  from r dom e have "butlast (tl r) = a @ CHR ''.'' # b"
    by (simp add: butlast_append)
  then show "has_inner_dot r" by (simp add: has_inner_dot_def)
qed

lemma email_shaped_iff:
  "email_shaped t \<longleftrightarrow>
     (\<exists>l dom e. t = l @ ''@'' @ dom @ ''.'' @ e \<and> l \<noteq> [] \<and> dom \<noteq> [] \<and> e \<noteq> [] \<and>
        list_all is_email_char l \<and> list_all is_email_char dom \<and> list_all is_email_char e)"
proof
  assume shaped: "email_shaped t"
  let ?l = "takeWhile is_email_char t"
  from shaped obtain r where l: "?l \<noteq> []" and d: "dropWhile is_email_char t = CHR ''@'' # r"
    and r: "list_all is_email_char r" "has_inner_dot r"
    by (auto simp: email_shaped_def split: list.splits)
  from r(2) obtain dom e where de: "r = dom @ ''.'' @ e" "dom \<noteq> []" "e \<noteq> []"
    by (auto simp: has_inner_dot_iff)
  have "t = ?l @ dropWhile is_email_char t" by simp
  with d de have "t = ?l @ ''@'' @ dom @ ''.'' @ e" by simp
  moreover have "list_all is_email_char ?l"
    by (simp add: list_all_iff) (meson set_takeWhileD)
  moreover from r(1) de have "list_all is_email_char dom" "list_all is_email_char e"
    by simp_all
  ultimately show "\<exists>l dom e. t = l @ ''@'' @ dom @ ''.'' @ e \<and> l \<noteq> [] \<and> dom \<noteq> [] \<and> e \<noteq> [] \<and>
        list_all is_email_char l \<and> list_all is_email_char dom \<and> list_all is_email_char e"
    using l de by blast
next
  assume "\<exists>l dom e. t = l @ ''@'' @ dom @ ''.'' @ e \<and> l \<noteq> [] \<and> dom \<noteq> [] \<and> e \<noteq> [] \<and>
        list_all is_email_char l \<and> list_all is_email_char dom \<and> list_all is_email_char e"
  then obtain l dom e where t: "t = l @ CHR ''@'' # (dom @ ''.'' @ e)"
    and ne: "l \<noteq> []" "dom \<noteq> []" "e \<noteq> []"
    and cls: "list_all is_email_char l" "list_all is_email_char dom" "list_all is_email_char e"
    by auto
  from cls(1) have "takeWhile is_email_char t = l" "dropWhile is_email_char t = CHR ''@'' # (dom @ ''.'' @ e)"
    unfolding t
    by (simp_all add: list_all_iff takeWhile_append2 dropWhile_append2 at_sign_not_email_char)
  moreover have "has_inner_dot (dom @ ''.'' @ e)"
    using ne by (auto simp: has_inner_dot_iff)
  ultimately show "email_shaped t"
    using ne cls by (simp add: email_shaped_def dot_is_email_char)
qed

lemma email_at_shaped:
  assumes "email_at s = Some m"
  shows "email_shaped m"
proof -
  let ?l = "takeWhile is_email_char s"
  from assms obtain rest where l: "?l \<noteq> []"
    and rest: "dropWhile is_email_char s = CHR ''@'' # rest"
    and dot: "has_inner_dot (takeWhile is_email_char rest)"
    and m: "m = ?l @ CHR ''@'' # takeWhile is_email_char rest"
    by (auto simp: email_at_def Let_def split: if_splits list.splits)
  have all_l: "\<forall>x \<in> set ?l. is_email_char x"
    by (meson set_takeWhileD)
  have all_r: "\<forall>x \<in> set (takeWhile is_email_char rest). is_email_char x"
    by (meson set_takeWhileD)
  from all_l have "takeWhile is_email_char m = ?l"
    "dropWhile is_email_char m = CHR ''@'' # takeWhile is_email_char rest"
    unfolding m
    by (simp_all add: takeWhile_append2 dropWhile_append2 at_sign_not_email_char)
  with l dot all_r show ?thesis
    by (simp add: email_shaped_def list_all_iff)
qed

lemma scan_emails_shaped: "m \<in> set (scan_emails s) \<Longrightarrow> email_shaped m"
  by (induction s rule: scan_emails.induct)
     (auto split: option.splits dest: email_at_shaped)

lemma set_values_props: "distinct (set_values xs) \<and> set (set_values xs) = set xs"
  by (simp add: set_values_first_occurrences distinct_first_occurrences set_first_occurrences)

text \<open>The conditions of the junk filter on one token.\<close>

lemma keep_email_iff:
  "keep_email t \<longleftrightarrow>
     \<not> junk_extension (js_toLowerCase t) \<and>
     \<not> js_includes (js_toLowerCase t) ''sentry'' \<and>
     \<not> js_includes (js_toLowerCase t) ''wix'' \<and>
     \<not> js_includes (js_toLowerCase t) ''node_modules'' \<and>
     \<not> js_includes (js_toLowerCase t) ''example.com'' \<and>
     \<not> js_includes (js_toLowerCase t) ''domain.com''"
  by (simp add: keep_email_def Let_def)

lemma harvested_email_tokens:
  assumes "harvested_email content = Some joined"
  shows "\<exists>toks. joined = js_join '', '' toks \<and> distinct toks \<and>
           (\<forall>t \<in> set toks. email_shaped t \<and> keep_email t)"
proof -
  let ?toks = "filter keep_email (set_values (scan_emails content))"
  from assms have "joined = js_join '', '' ?toks"
    by (simp add: harvested_email_def split: list.splits)
  moreover have "distinct ?toks"
    using set_values_props [of "scan_emails content"] by simp
  moreover have "\<forall>t \<in> set ?toks. email_shaped t \<and> keep_email t"
    using set_values_props [of "scan_emails content"] scan_emails_shaped [of _ content]
    by auto
  ultimately show ?thesis by blast
qed

text \<open>
  Claim C8: the \<^verbatim>\<open>email\<close> field of every produced record is the \<^verbatim>\<open>", "\<close>-joined
  list of distinct tokens (none when the field is empty), each of the shape of the email
  pattern, none ending in one of the file extensions, none containing one of the tooling
  substrings and none containing a placeholder domain; the tests are made on the token in
  lower case, as the filter does.
\<close>

theorem email_tokens_filtered:
  assumes "produced u env d"
  shows "\<exists>toks. email d = js_join '', '' toks \<and> distinct toks \<and>
           (\<forall>t \<in> set toks.
              email_shaped t \<and>
              \<not> junk_extension (js_toLowerCase t) \<and>
              \<not> js_includes (js_toLowerCase t) ''sentry'' \<and>
              \<not> js_includes (js_toLowerCase t) ''wix'' \<and>
              \<not> js_includes (js_toLowerCase t) ''node_modules'' \<and>
              \<not> js_includes (js_toLowerCase t) ''example.com'' \<and>
              \<not> js_includes (js_toLowerCase t) ''domain.com'')"
proof -
  let ?ok = "\<lambda>e. \<exists>toks. e = js_join '', '' toks \<and> distinct toks \<and>
           (\<forall>t \<in> set toks. email_shaped t \<and> keep_email t)"
  have "?ok (email d)"
    using assms
  proof (rule produced_preserves [where P = "\<lambda>s. ?ok (email s)"])
    fix s :: listing
    assume "derived_fields_unset s"
    then have "email s = js_join '', '' []" by (simp add: derived_fields_unset_def)
    then show "?ok (email s)" by (metis distinct.simps(1) empty_iff list.set(1))
  next
    fix content joined and s :: listing
    assume "harvested_email content = Some joined"
    then show "?ok (email (s\<lparr>email := joined\<rparr>))"
      using harvested_email_tokens [of content joined] by simp
  qed simp_all
  then show ?thesis
    by (simp only: keep_email_iff)
qed

theorem email_tokens_filtered_witness:
  "produced ''https://maps.test/place/1'' sample_page sample_listing \<and>
   email sample_listing = ''info@realbiz.com'' \<and>
   (\<exists>toks. email sample_listing = js_join '', '' toks \<and> distinct toks)"
proof -
  have p: "produced ''https://maps.test/place/1'' sample_page sample_listing"
    by (simp add: produced_def sample_server)
  have e: "email sample_listing = ''info@realbiz.com''"
    by (simp add: sample_listing_def)
  from email_tokens_filtered [OF p]
  have "\<exists>toks. email sample_listing = js_join '', '' toks \<and> distinct toks"
    by blast
  with p e show ?thesis by blast
qed

section \<open>Review categories of a produced record\<close>

lemma mentioned_tail_digits:
  assumes "mentioned_tail s = Some n"
  shows "n \<noteq> [] \<and> list_all is_digit n"
proof -
  from assms obtain r2 where "n = takeWhile is_digit r2" and "n \<noteq> []"
    by (auto simp: mentioned_tail_def Let_def split: list.splits if_splits option.splits)
  moreover have "list_all is_digit (takeWhile is_digit r2)"
    by (simp add: list_all_iff) (meson set_takeWhileD)
  ultimately show ?thesis by simp
qed

text \<open>
  A match splits the label into the subject and a rest that the tail of the pattern
  matches; the subject is non-empty and has no line terminator.
\<close>

lemma category_match_from_shape:
  assumes "category_match_from subj s = Some (subject, n)"
    and "list_all (\<lambda>x. \<not> is_line_terminator x) subj"
  shows "subject \<noteq> [] \<and> list_all (\<lambda>x. \<not> is_line_terminator x) subject \<and>
         (\<exists>rest. subj @ s = subject @ rest \<and> mentioned_tail rest = Some n)"
  using assms
proof (induction s arbitrary: subj)
  case Nil
  then show ?case by simp
next
  case (Cons c cs)
  show ?case
  proof (cases "subj \<noteq> [] \<and> mentioned_tail (c # cs) \<noteq> None")
    case True
    with Cons.prems show ?thesis by auto
  next
    case False
    with Cons.prems(1) have c: "\<not> is_line_terminator c"
      and rec: "category_match_from (subj @ [c]) cs = Some (subject, n)"
      by (auto split: if_splits option.splits)
    from c Cons.prems(2) have "list_all (\<lambda>x. \<not> is_line_terminator x) (subj @ [c])"
      by simp
    from Cons.IH [OF rec this] show ?thesis by simp
  qed
qed

lemma paren_not_digit: "\<not> is_digit CHR ''(''"
  by (simp add: is_digit_def)

lemma is_subject_count_iff:
  "is_subject_count s \<longleftrightarrow>
     (\<exists>subject n. s = subject @ '' ('' @ n @ '')'' \<and> subject \<noteq> [] \<and>
        list_all (\<lambda>x. \<not> is_line_terminator x) subject \<and> n \<noteq> [] \<and> list_all is_digit n)"
proof
  assume "is_subject_count s"
  then obtain r subj where rs: "rev s = CHR '')'' # r"
    and ds: "takeWhile is_digit r \<noteq> []"
    and rest: "dropWhile is_digit r = CHR ''('' # CHR '' '' # subj"
    and subj: "subj \<noteq> []" "list_all (\<lambda>x. \<not> is_line_terminator x) subj"
    by (auto simp: is_subject_count_def split: list.splits)
  let ?n = "rev (takeWhile is_digit r)"
  have "r = takeWhile is_digit r @ dropWhile is_digit r" by simp
  with rest have "r = takeWhile is_digit r @ CHR ''('' # CHR '' '' # subj" by simp
  with rs have "rev s = CHR '')'' # takeWhile is_digit r @ CHR ''('' # CHR '' '' # subj" by simp
  then have "rev (rev s) = rev (CHR '')'' # takeWhile is_digit r @ CHR ''('' # CHR '' '' # subj)"
    by (rule arg_cong)
  then have "s = rev subj @ '' ('' @ ?n @ '')''" by simp
  moreover have "list_all is_digit ?n"
    by (simp add: list_all_iff) (meson set_takeWhileD)
  ultimately show "\<exists>subject n. s = subject @ '' ('' @ n @ '')'' \<and> subject \<noteq> [] \<and>
        list_all (\<lambda>x. \<not> is_line_terminator x) subject \<and> n \<noteq> [] \<and> list_all is_digit n"
    using ds subj by (intro exI [of _ "rev subj"] exI [of _ ?n]) (simp add: list_all_iff)
next
  assume "\<exists>subject n. s = subject @ '' ('' @ n @ '')'' \<and> subject \<noteq> [] \<and>
        list_all (\<lambda>x. \<not> is_line_terminator x) subject \<and> n \<noteq> [] \<and> list_all is_digit n"
  then obtain subject n where s: "s = subject @ '' ('' @ n @ '')''"
    and subject: "subject \<noteq> []" "list_all (\<lambda>x. \<not> is_line_terminator x) subject"
    and n: "n \<noteq> []" "list_all is_digit n"
    by blast
  have rs: "rev s = CHR '')'' # (rev n @ CHR ''('' # CHR '' '' # rev subject)"
    by (simp add: s)
  let ?ys = "CHR ''('' # CHR '' '' # rev subject"
  from n(2) have digits: "\<And>x. x \<in> set (rev n) \<Longrightarrow> is_digit x"
    by (simp add: list_all_iff)
  have "takeWhile is_digit (rev n @ ?ys) = rev n @ takeWhile is_digit ?ys"
    using digits by (rule takeWhile_append2)
  moreover have "dropWhile is_digit (rev n @ ?ys) = dropWhile is_digit ?ys"
    using digits by (rule dropWhile_append2)
  ultimately have "takeWhile is_digit (rev n @ ?ys) = rev n"
    "dropWhile is_digit (rev n @ ?ys) = ?ys"
    by (simp_all add: paren_not_digit)
  with subject n show "is_subject_count s"
    unfolding is_subject_count_def rs by (simp add: list_all_iff)
qed

lemma category_entry_cases:
  "(category_match l = None \<longrightarrow> category_entry l = js_trim l) \<and>
   (\<forall>subject count. category_match l = Some (subject, count) \<longrightarrow>
      category_entry l = subject @ '' ('' @ count @ '')'' \<and>
      is_subject_count (category_entry l))"
proof (intro conjI allI impI)
  assume "category_match l = None"
  then show "category_entry l = js_trim l" by (simp add: category_entry_def)
next
  fix subject count
  assume m: "category_match l = Some (subject, count)"
  then show e: "category_entry l = subject @ '' ('' @ count @ '')''"
    by (simp add: category_entry_def)
  from m category_match_from_shape [of "[]" l subject count]
  obtain rest where "subject \<noteq> []" "list_all (\<lambda>x. \<not> is_line_terminator x) subject"
    "mentioned_tail rest = Some count"
    by (auto simp: category_match_def)
  with mentioned_tail_digits [of rest count] show "is_subject_count (category_entry l)"
    unfolding e is_subject_count_iff by blast
qed

text \<open>
  Claim C2 as the code has it. Every entry of \<^verbatim>\<open>reviewCategories\<close> of a produced
  record comes from a chip of the page whose label contains \<^verbatim>\<open>mentioned in\<close>, so a
  label without the phrase never contributes. When the label matches the whole pattern
  \<^verbatim>\<open>subject, mentioned in N review(s)\<close> the entry is \<^verbatim>\<open>subject (N)\<close> and has the
  shape \<^verbatim>\<open>^.+ \(\d+\)$\<close>; otherwise the entry is the trimmed label itself.
\<close>

theorem categories_from_mention_labels:
  assumes "produced u env d" and "c \<in> set (reviewCategories d)"
  shows "\<exists>btn \<in> set (env_chips env). \<exists>l.
           chip_label btn = Some l \<and> js_includes l ''mentioned in'' \<and> c = category_entry l \<and>
           (category_match l = None \<longrightarrow> c = js_trim l) \<and>
           (\<forall>subject count. category_match l = Some (subject, count) \<longrightarrow>
              c = subject @ '' ('' @ count @ '')'' \<and> is_subject_count c)"
proof -
  let ?src = "\<lambda>c. \<exists>btn \<in> set (env_chips env). \<exists>l.
           chip_label btn = Some l \<and> js_includes l ''mentioned in'' \<and> c = category_entry l"
  have "\<forall>c \<in> set (reviewCategories d). ?src c"
    using assms(1)
  proof (rule produced_preserves [where P = "\<lambda>s. \<forall>c \<in> set (reviewCategories s). ?src c"])
    fix btns btn l and s :: listing
    assume "categoryButtons (review_tab env) = Inr btns" "btn \<in> set btns"
      "chip_label btn = Some l" "js_includes l ''mentioned in''"
      and s: "\<forall>c \<in> set (reviewCategories s). ?src c"
    then have "?src (category_entry l)"
      by (auto simp: env_chips_def)
    with s show "\<forall>c \<in> set (reviewCategories
        (s\<lparr>reviewCategories := reviewCategories s @ [category_entry l]\<rparr>)). ?src c"
      by simp
  qed (simp_all add: derived_fields_unset_def)
  with assms(2) obtain btn l where src: "btn \<in> set (env_chips env)" "chip_label btn = Some l"
    "js_includes l ''mentioned in''" and c: "c = category_entry l"
    by blast
  from category_entry_cases [of l]
  have fallback: "category_match l = None \<longrightarrow> c = js_trim l"
    and rewritten: "\<forall>subject count. category_match l = Some (subject, count) \<longrightarrow>
           c = subject @ '' ('' @ count @ '')'' \<and> is_subject_count c"
    unfolding c by (rule conjunct1, rule conjunct2)
  show ?thesis
  proof (intro bexI exI conjI)
    show "btn \<in> set (env_chips env)" by (rule src(1))
  qed (rule src(2) src(3) c fallback rewritten)+
qed

theorem categories_from_mention_labels_witness:
  "produced ''https://maps.test/place/1'' sample_page sample_listing \<and>
   ''quality (11)'' \<in> set (reviewCategories sample_listing) \<and>
   (\<exists>btn l. btn \<in> set (env_chips sample_page) \<and> chip_label btn = Some l \<and>
      js_includes l ''mentioned in'' \<and> ''quality (11)'' = category_entry l)"
proof -
  have p: "produced ''https://maps.test/place/1'' sample_page sample_listing"
    by (simp add: produced_def sample_server)
  have c: "''quality (11)'' \<in> set (reviewCategories sample_listing)"
    by (simp add: sample_listing_def)
  from categories_from_mention_labels [OF p c] p c show ?thesis
    by blast
qed

text \<open>
  Claim C2 as stated (every entry has the shape \<^verbatim>\<open>^.+ \(\d+\)$\<close>) fails on the sample
  page: the label \<^verbatim>\<open>price, mentioned in 1,234 reviews\<close> contains the phrase, its count
  is not a run of digits, and the fallback branch pushes the label unchanged.
\<close>

theorem category_fallback_counterexample:
  "produced ''https://maps.test/place/1'' sample_page sample_listing \<and>
   ''price, mentioned in 1,234 reviews'' \<in> set (reviewCategories sample_listing) \<and>
   \<not> is_subject_count ''price, mentioned in 1,234 reviews''"
proof -
  have "produced ''https://maps.test/place/1'' sample_page sample_listing"
    by (simp add: produced_def sample_server)
  moreover have "''price, mentioned in 1,234 reviews'' \<in> set (reviewCategories sample_listing)"
    by (simp add: sample_listing_def)
  moreover have "\<not> is_subject_count ''price, mentioned in 1,234 reviews''"
    by code_simp
  ultimately show ?thesis by blast
qed

section \<open>Attributes\<close>

lemma extract_reviews_attributes:
  "attributes (extract_reviews env s) = attributes s"
  by (rule extract_reviews_preserves [where P = "\<lambda>t. attributes t = attributes s"]) simp_all

lemma cli_extract_email_attributes:
  assumes "snd (cli_extract_email env s) = Inr d"
  shows "attributes d = attributes s"
  using cli_extract_email_cases [OF assms]
proof
  assume "d = s"
  then show ?thesis by simp
next
  assume "\<exists>content joined. page2_content env = Inr content \<and>
     harvested_email content = Some joined \<and> d = s\<lparr>email := joined\<rparr>"
  then obtain joined where "d = s\<lparr>email := joined\<rparr>" by blast
  then show ?thesis by simp
qed

text \<open>The attributes of a record the script pushes are those the About step left.\<close>

lemma cli_attributes:
  assumes "cli_scrape_listing u env = Inr d"
  shows "\<exists>d0. attributes d0 = None \<and> attributes d = attributes (extract_attributes (about env) d0)"
proof -
  from assms obtain d0 where d0: "resolve_fields env u = Inr d0"
    and d: "snd (cli_extract_email (site env)
           (extract_reviews (review_tab env) (extract_attributes (about env) d0))) = Inr d"
    by (auto simp: cli_scrape_listing_def split: sum.splits)
  from cli_extract_email_attributes [OF d]
  have "attributes d = attributes (extract_attributes (about env) d0)"
    by (simp add: extract_reviews_attributes)
  with resolve_fields_derived [OF d0] show ?thesis by blast
qed

lemma about_step_absent:
  "aboutTabBtn_count env = Inr 0 \<Longrightarrow> about_step env s = (None, s)"
  by (simp add: about_step_def)

lemma about_step_present:
  assumes "aboutTabBtn_count env = Inr n" "0 < n" "returns (aboutTabBtn_click env)"
    "returns (about_waitForTimeout env)" "pageContent env = Inr content"
  shows "attributes (extract_attributes env s) = Some (attribute_tags content)"
  using assms
  by (simp add: extract_attributes_def try_steps_def about_step_def returns_def split: sum.splits)

lemma women_owned_tag:
  "js_includes content ''Identified as women-owned'' \<Longrightarrow> ''Women-owned'' \<in> set (attribute_tags content)"
  by (simp add: attribute_tags_def)

text \<open>
  Claim C5 as the code has it, for the command-line script. When the About tab is
  present, its click, the wait and the content read return, and the content contains
  \<^verbatim>\<open>Identified as women-owned\<close>, then \<^verbatim>\<open>attributes\<close> is set and includes
  \<^verbatim>\<open>Women-owned\<close>. When the About tab is absent, the step raises no exception and the
  key \<^verbatim>\<open>attributes\<close> is not set: the record has no such key, rather than an empty list.
\<close>

theorem attributes_from_about_tab:
  assumes "cli_scrape_listing u env = Inr d"
  shows "(aboutTabBtn_count (about env) = Inr 0 \<longrightarrow>
            attributes d = None \<and> fst (about_step (about env) s) = None) \<and>
         (\<forall>n content.
            aboutTabBtn_count (about env) = Inr n \<and> 0 < n \<and>
            returns (aboutTabBtn_click (about env)) \<and>
            returns (about_waitForTimeout (about env)) \<and>
            pageContent (about env) = Inr content \<and>
            js_includes content ''Identified as women-owned'' \<longrightarrow>
            (\<exists>tags. attributes d = Some tags \<and> ''Women-owned'' \<in> set tags))"
proof -
  from cli_attributes [OF assms] obtain d0 where d0: "attributes d0 = None"
    and d: "attributes d = attributes (extract_attributes (about env) d0)"
    by blast
  have absent: "attributes d = None \<and> fst (about_step (about env) s) = None"
    if "aboutTabBtn_count (about env) = Inr 0"
    using that d d0
    by (simp add: extract_attributes_def try_steps_def about_step_absent)
  have present: "\<exists>tags. attributes d = Some tags \<and> ''Women-owned'' \<in> set tags"
    if "aboutTabBtn_count (about env) = Inr n" "0 < n"
      "returns (aboutTabBtn_click (about env))" "returns (about_waitForTimeout (about env))"
      "pageContent (about env) = Inr content"
      "js_includes content ''Identified as women-owned''"
    for n content
    using d about_step_present [OF that(1-5), of d0] women_owned_tag [OF that(6)]
    by simp
  from absent present show ?thesis by blast
qed

theorem attributes_from_about_tab_witness:
  "cli_scrape_listing ''https://maps.test/place/1'' sample_page
     = Inr (sample_listing\<lparr>attributes := Some [''Women-owned'']\<rparr>) \<and>
   aboutTabBtn_count (about sample_page) = Inr 1 \<and>
   pageContent (about sample_page) = Inr ''<span>Identified as women-owned</span>'' \<and>
   js_includes ''<span>Identified as women-owned</span>'' ''Identified as women-owned'' \<and>
   (\<exists>tags. attributes (sample_listing\<lparr>attributes := Some [''Women-owned'']\<rparr>) = Some tags \<and>
      ''Women-owned'' \<in> set tags) \<and>
   aboutTabBtn_count (about blank_page) = Inr 0 \<and>
   fst (about_step (about blank_page) sample_listing) = None"
proof -
  have a: "aboutTabBtn_count (about sample_page) = Inr 1"
    "returns (aboutTabBtn_click (about sample_page))"
    "returns (about_waitForTimeout (about sample_page))"
    "pageContent (about sample_page) = Inr ''<span>Identified as women-owned</span>''"
    by (simp_all add: sample_page_def returns_def)
  have i: "js_includes ''<span>Identified as women-owned</span>'' ''Identified as women-owned''"
    by code_simp
  from attributes_from_about_tab [OF sample_cli, of sample_listing] a i
  have "\<exists>tags. attributes (sample_listing\<lparr>attributes := Some [''Women-owned'']\<rparr>) = Some tags \<and>
      ''Women-owned'' \<in> set tags"
    by (metis zero_less_one)
  moreover have blank: "cli_scrape_listing ''https://maps.test/place/2'' blank_page
     = Inr ((new_listing ''https://maps.test/place/2'')\<lparr>name := Str ''Real Biz''\<rparr>)"
    by code_simp
  have b: "aboutTabBtn_count (about blank_page) = Inr 0"
    by (simp add: blank_page_def)
  from attributes_from_about_tab [OF blank, of sample_listing] b
  have "fst (about_step (about blank_page) sample_listing) = None"
    by blast
  ultimately show ?thesis using sample_cli a i b by blast
qed

text \<open>
  Claim C5 as stated fails in its second half: on the blank page the About tab is absent
  and the record the script pushes has no \<^verbatim>\<open>attributes\<close> key, which is not the empty
  list.
\<close>

theorem attributes_absent_counterexample:
  "aboutTabBtn_count (about blank_page) = Inr 0 \<and>
   cli_scrape_listing ''https://maps.test/place/2'' blank_page
     = Inr ((new_listing ''https://maps.test/place/2'')\<lparr>name := Str ''Real Biz''\<rparr>) \<and>
   attributes ((new_listing ''https://maps.test/place/2'')\<lparr>name := Str ''Real Biz''\<rparr>) = None \<and>
   attributes ((new_listing ''https://maps.test/place/2'')\<lparr>name := Str ''Real Biz''\<rparr>) \<noteq> Some []"
proof -
  have "cli_scrape_listing ''https://maps.test/place/2'' blank_page
     = Inr ((new_listing ''https://maps.test/place/2'')\<lparr>name := Str ''Real Biz''\<rparr>)"
    by code_simp
  then show ?thesis
    by (simp add: blank_page_def new_listing_def)
qed

section \<open>The two programs compared\<close>

text \<open>
  Steps that do not read \<^verbatim>\<open>attributes\<close> commute with setting it.
\<close>

lemma run_steps_commute:
  fixes g :: "'s \<Rightarrow> 's"
  assumes "\<And>f s. f \<in> set fs \<Longrightarrow> f (g s) = (fst (f s), g (snd (f s)))"
  shows "run_steps fs (g s) = (fst (run_steps fs s), g (snd (run_steps fs s)))"
  using assms
proof (induction fs arbitrary: s)
  case Nil
  then show ?case by simp
next
  case (Cons f fs)
  obtain err s' where f: "f s = (err, s')" by (cases "f s") auto
  with Cons.prems [of f s] have fg: "f (g s) = (err, g s')" by simp
  show ?case
  proof (cases err)
    case None
    with f fg Cons.IH [of s'] Cons.prems show ?thesis by simp
  next
    case (Some e)
    with f fg show ?thesis by simp
  qed
qed

lemma for_each_commute:
  fixes g :: "'s \<Rightarrow> 's"
  assumes "\<And>x s. x \<in> set xs \<Longrightarrow> body x (g s) = (fst (body x s), g (snd (body x s)))"
  shows "for_each body xs (g s) = (fst (for_each body xs s), g (snd (for_each body xs s)))"
  using assms
proof (induction xs arbitrary: s)
  case Nil
  then show ?case by simp
next
  case (Cons x xs)
  obtain err s' where b: "body x s = (err, s')" by (cases "body x s") auto
  with Cons.prems [of x s] have bg: "body x (g s) = (err, g s')" by simp
  show ?case
  proof (cases err)
    case None
    with b bg Cons.IH [of s'] Cons.prems show ?thesis by simp
  next
    case (Some e)
    with b bg show ?thesis by simp
  qed
qed

lemma await_unit_commute: "await_unit r (g s) = (fst (await_unit r s), g (snd (await_unit r s)))"
  by (simp add: await_unit_def split: sum.splits)

lemma scroll_reviews_step_commute:
  "scroll_reviews_step env (g s) =
     (fst (scroll_reviews_step env s), g (snd (scroll_reviews_step env s)))"
proof -
  let ?fs = "concat (map (\<lambda>i. [await_unit (reviewsContainer_evaluate env i),
                                  await_unit (scroll_waitForTimeout env i)]) [0 ..< 3])"
  have "run_steps ?fs (g s) = (fst (run_steps ?fs s), g (snd (run_steps ?fs s)))"
    by (rule run_steps_commute) (auto simp: await_unit_commute)
  then show ?thesis
    by (simp add: scroll_reviews_step_def split: sum.splits)
qed

lemma read_reviews_step_commute:
  "read_reviews_step env (s\<lparr>attributes := a\<rparr>) =
     (fst (read_reviews_step env s), (snd (read_reviews_step env s))\<lparr>attributes := a\<rparr>)"
  by (simp add: read_reviews_step_def split: sum.splits)

lemma harvest_step_commute:
  "harvest_step env (s\<lparr>attributes := a\<rparr>) =
     (fst (harvest_step env s), (snd (harvest_step env s))\<lparr>attributes := a\<rparr>)"
proof -
  let ?fs = "[await_unit (reviewsTabBtn_click env), await_unit (waitForSelector_review env),
              scroll_reviews_step env, await_unit (moreButtons env), read_reviews_step env]"
  have "run_steps ?fs (s\<lparr>attributes := a\<rparr>) =
      (fst (run_steps ?fs s), (snd (run_steps ?fs s))\<lparr>attributes := a\<rparr>)"
    by (rule run_steps_commute [where g = "\<lambda>s. s\<lparr>attributes := a\<rparr>"])
       (auto simp: await_unit_commute scroll_reviews_step_commute read_reviews_step_commute)
  then show ?thesis
    by (simp add: harvest_step_def split: sum.splits)
qed

lemma chip_step_commute:
  "chip_step btn (s\<lparr>attributes := a\<rparr>) =
     (fst (chip_step btn s), (snd (chip_step btn s))\<lparr>attributes := a\<rparr>)"
  by (simp add: chip_step_def split: sum.splits jsval.splits)

lemma chips_step_commute:
  "chips_step env (s\<lparr>attributes := a\<rparr>) =
     (fst (chips_step env s), (snd (chips_step env s))\<lparr>attributes := a\<rparr>)"
proof (cases "categoryButtons env")
  case (Inl e)
  then show ?thesis by (simp add: chips_step_def)
next
  case (Inr btns)
  have "for_each chip_step btns (s\<lparr>attributes := a\<rparr>) =
      (fst (for_each chip_step btns s), (snd (for_each chip_step btns s))\<lparr>attributes := a\<rparr>)"
    by (rule for_each_commute [where g = "\<lambda>s. s\<lparr>attributes := a\<rparr>"]) (rule chip_step_commute)
  with Inr show ?thesis by (simp add: chips_step_def)
qed

lemma categories_step_commute:
  "categories_step env (s\<lparr>attributes := a\<rparr>) =
     (fst (categories_step env s), (snd (categories_step env s))\<lparr>attributes := a\<rparr>)"
  unfolding categories_step_def
  by (rule run_steps_commute [where g = "\<lambda>s. s\<lparr>attributes := a\<rparr>"])
     (auto simp: await_unit_commute chips_step_commute reset_categories_step_def)

lemma names_step_commute:
  "names_step (s\<lparr>attributes := a\<rparr>) =
     (fst (names_step s), (snd (names_step s))\<lparr>attributes := a\<rparr>)"
  by (simp add: names_step_def)

lemma extract_reviews_commute:
  "extract_reviews env (s\<lparr>attributes := a\<rparr>) = (extract_reviews env s)\<lparr>attributes := a\<rparr>"
proof -
  let ?fs = "[harvest_step env, categories_step env, names_step]"
  have "run_steps ?fs (s\<lparr>attributes := a\<rparr>) =
      (fst (run_steps ?fs s), (snd (run_steps ?fs s))\<lparr>attributes := a\<rparr>)"
    by (rule run_steps_commute [where g = "\<lambda>s. s\<lparr>attributes := a\<rparr>"])
       (auto simp: harvest_step_commute categories_step_commute names_step_commute)
  then show ?thesis
    by (simp add: extract_reviews_def try_steps_def)
qed

lemma email_try_commute:
  "email_try env (s\<lparr>attributes := a\<rparr>) =
     (fst (email_try env s), fst (snd (email_try env s)),
      (snd (snd (email_try env s)))\<lparr>attributes := a\<rparr>)"
  by (simp add: email_try_def Let_def split: sum.splits option.splits)

lemma email_try_returns:
  "email_calls_return env \<Longrightarrow> fst (email_try env s) = None"
  by (auto simp: email_calls_return_def returns_def email_try_def Let_def split: sum.splits)

text \<open>When no call of the email step raises, both programs run the same email step.\<close>

lemma extract_email_agree:
  assumes "email_calls_return env"
  shows "snd (cli_extract_email env s) = snd (server_extract_email env s)"
proof (cases "email_try env s")
  case (fields err p2 t)
  with email_try_returns [OF assms, of s] have "err = None" by simp
  with fields show ?thesis
    by (simp add: cli_extract_email_def server_extract_email_def)
qed

lemma server_extract_email_commute:
  "snd (server_extract_email env (s\<lparr>attributes := a\<rparr>)) =
     map_sum id (\<lambda>d. d\<lparr>attributes := a\<rparr>) (snd (server_extract_email env s))"
  by (cases "email_try env s")
     (simp add: server_extract_email_def email_try_commute)

lemma server_extract_email_attributes:
  "snd (server_extract_email env s) = Inr d \<Longrightarrow> attributes d = attributes s"
  using server_extract_email_cases [of env s d] by auto

lemma server_extract_email_total: "\<exists>d. snd (server_extract_email env s) = Inr d"
  by (cases "email_try env s") (auto simp: server_extract_email_def)

lemma listing_agree:
  assumes "email_calls_return (site env)"
  shows "server_scrape_listing u env =
           map_sum id (\<lambda>d. d\<lparr>attributes := None\<rparr>) (cli_scrape_listing u env)"
proof (cases "resolve_fields env u")
  case (Inl e)
  then show ?thesis by (simp add: cli_scrape_listing_def server_scrape_listing_def)
next
  case (Inr d0)
  let ?E = "extract_reviews (review_tab env)"
  obtain a where a: "extract_attributes (about env) d0 = d0\<lparr>attributes := a\<rparr>"
    using extract_attributes_frame by blast
  obtain d where d: "snd (server_extract_email (site env) (?E d0)) = Inr d"
    using server_extract_email_total by blast
  from resolve_fields_derived [OF Inr] server_extract_email_attributes [OF d]
  have none: "attributes d = None"
    by (simp add: extract_reviews_attributes)
  have "snd (cli_extract_email (site env) (?E (extract_attributes (about env) d0)))
      = Inr (d\<lparr>attributes := a\<rparr>)"
    using d by (simp add: a extract_reviews_commute extract_email_agree [OF assms]
        server_extract_email_commute)
  moreover have "d\<lparr>attributes := a, attributes := None\<rparr> = d"
    using none by simp
  ultimately show ?thesis
    using Inr d by (simp add: cli_scrape_listing_def server_scrape_listing_def)
qed

lemma scrape_all_agree:
  assumes "\<forall>(u, env) \<in> set visits. email_calls_return (site env)"
  shows "scrape_all server_scrape_listing visits (map (\<lambda>d. d\<lparr>attributes := None\<rparr>) acc) =
         map (\<lambda>d. d\<lparr>attributes := None\<rparr>) (scrape_all cli_scrape_listing visits acc)"
  using assms
proof (induction visits arbitrary: acc)
  case Nil
  then show ?case by simp
next
  case (Cons v visits)
  obtain u env where v: "v = (u, env)" by (cases v) auto
  with Cons.prems have ok: "email_calls_return (site env)"
    and rest: "\<forall>(u, env) \<in> set visits. email_calls_return (site env)"
    by auto
  show ?case
  proof (cases "cli_scrape_listing u env")
    case (Inl e)
    with listing_agree [OF ok, of u] v Cons.IH [OF rest, of acc] show ?thesis by simp
  next
    case (Inr d)
    with listing_agree [OF ok, of u] v Cons.IH [OF rest, of "acc @ [d]"] show ?thesis by simp
  qed
qed

text \<open>
  Claim C9 as the code has it. For the same page answers, as long as no call of the email
  step raises, the server's \<^verbatim>\<open>runScraper\<close> produces the record sequence of the
  command-line script with the \<^verbatim>\<open>attributes\<close> key removed: the same listings in the same
  order, equal in every other field; \<^verbatim>\<open>runScraper\<close> never sets \<^verbatim>\<open>attributes\<close>.
\<close>

theorem runScraper_is_cli_without_attributes:
  assumes "\<forall>(u, env) \<in> set visits. email_calls_return (site env)"
  shows "runScraper_resultsData visits =
           map (\<lambda>d. d\<lparr>attributes := None\<rparr>) (cli_resultsData visits)"
  using scrape_all_agree [OF assms, of "[]"]
  by (simp add: runScraper_resultsData_def cli_resultsData_def)

theorem runScraper_is_cli_without_attributes_witness:
  "email_calls_return (site sample_page) \<and>
   runScraper_resultsData [(''https://maps.test/place/1'', sample_page)] =
     map (\<lambda>d. d\<lparr>attributes := None\<rparr>)
       (cli_resultsData [(''https://maps.test/place/1'', sample_page)])"
proof -
  have ok: "email_calls_return (site sample_page)"
    by (simp add: email_calls_return_def returns_def sample_page_def blank_page_def)
  then have "\<forall>(u, env) \<in> set [(''https://maps.test/place/1'', sample_page)].
      email_calls_return (site env)"
    by simp
  from runScraper_is_cli_without_attributes [OF this] ok show ?thesis
    by blast
qed

text \<open>
  Claim C9 as stated fails on the sample page, whose About tab is present: the script's
  record carries \<^verbatim>\<open>attributes\<close>, the server's record does not.
\<close>

theorem cli_server_differ_counterexample:
  "cli_resultsData [(''https://maps.test/place/1'', sample_page)]
     = [sample_listing\<lparr>attributes := Some [''Women-owned'']\<rparr>] \<and>
   runScraper_resultsData [(''https://maps.test/place/1'', sample_page)] = [sample_listing] \<and>
   cli_resultsData [(''https://maps.test/place/1'', sample_page)]
     \<noteq> runScraper_resultsData [(''https://maps.test/place/1'', sample_page)]"
proof -
  have c: "cli_resultsData [(''https://maps.test/place/1'', sample_page)]
     = [sample_listing\<lparr>attributes := Some [''Women-owned'']\<rparr>]"
    by (simp add: cli_resultsData_def sample_cli)
  have s: "runScraper_resultsData [(''https://maps.test/place/1'', sample_page)] = [sample_listing]"
    by (simp add: runScraper_resultsData_def sample_server)
  have "attributes (sample_listing\<lparr>attributes := Some [''Women-owned'']\<rparr>) \<noteq> attributes sample_listing"
    by (simp add: sample_listing_def)
  then have "sample_listing\<lparr>attributes := Some [''Women-owned'']\<rparr> \<noteq> sample_listing"
    by (metis)
  with c s show ?thesis by simp
qed

end
